theory Spec2Isabelle
  imports Complex_Main
begin

section \<open>American Eagle product scraper (\<open>scraper.py\<close>)\<close>

text \<open>
  The scraper drives a browser page, an embedding model and a database. These three are
  outside the program: what they answer is taken from an environment of functions,
  indexed by a clock so that the same question may be answered differently at
  different moments of a run. Everything the Python and the injected JavaScript
  compute from those answers is defined below as the code computes it.
  Python exceptions are values of \<open>error\<close>; text is \<open>string\<close>, one character per
  code unit, for code units below 256.
\<close>

subsection \<open>String operations of Python and JavaScript\<close>

text \<open>\<open>str.startswith(prefix)\<close>.\<close>

fun startswith :: "string \<Rightarrow> string \<Rightarrow> bool" where
  "startswith s [] = True"
| "startswith [] (p # ps) = False"
| "startswith (c # cs) (p # ps) = (c = p \<and> startswith cs ps)"

text \<open>\<open>String.prototype.includes(sub)\<close>: \<open>sub\<close> occurs at some position of \<open>s\<close>.\<close>

fun str_includes :: "string \<Rightarrow> string \<Rightarrow> bool" where
  "str_includes [] sub = (sub = [])"
| "str_includes (c # cs) sub = (startswith (c # cs) sub \<or> str_includes cs sub)"

text \<open>
  \<open>String.prototype.trim()\<close> removes the white space and line terminators of ECMAScript:
  below 256 these are U+0009 to U+000D, U+0020 and U+00A0.
\<close>

definition js_whitespace :: "char \<Rightarrow> bool" where
  "js_whitespace c = ((of_char c :: nat) \<in> set [9, 10, 11, 12, 13, 32, 160])"

definition js_trim :: "string \<Rightarrow> string" where
  "js_trim s = rev (dropWhile js_whitespace (rev (dropWhile js_whitespace s)))"

text \<open>
  \<open>str.strip()\<close> removes the characters for which \<open>str.isspace()\<close> holds: below 256
  these are U+0009 to U+000D, U+001C to U+001F, U+0020, U+0085 and U+00A0.
\<close>

definition py_whitespace :: "char \<Rightarrow> bool" where
  "py_whitespace c = ((of_char c :: nat) \<in> set [9, 10, 11, 12, 13, 28, 29, 30, 31, 32, 133, 160])"

definition strip :: "string \<Rightarrow> string" where
  "strip s = rev (dropWhile py_whitespace (rev (dropWhile py_whitespace s)))"

text \<open>\<open>String.prototype.toLowerCase()\<close> on code units below 256.\<close>

definition lower_char :: "char \<Rightarrow> char" where
  "lower_char c =
     (let n = (of_char c :: nat)
      in if (65 \<le> n \<and> n \<le> 90) \<or> (192 \<le> n \<and> n \<le> 222 \<and> n \<noteq> 215) then char_of (n + 32) else c)"

definition toLowerCase :: "string \<Rightarrow> string" where
  "toLowerCase s = map lower_char s"

text \<open>\<open>', '.join(parts)\<close>.\<close>

fun join_comma :: "string list \<Rightarrow> string" where
  "join_comma [] = []"
| "join_comma [x] = x"
| "join_comma (x # y # ys) = x @ '', '' @ join_comma (y # ys)"

definition is_digit :: "char \<Rightarrow> bool" where
  "is_digit c = (c \<in> set ''0123456789'')"

subsection \<open>Listing walker: \<open>scroll_and_load_products\<close>\<close>

text \<open>An exception raised by Playwright (\<open>page.goto\<close>, \<open>page.evaluate\<close>) that no handler catches.\<close>

datatype error = RendererError

text \<open>
  The local variables of \<open>scroll_and_load_products\<close>. \<open>scrolls\<close> is not a variable of the
  source: it counts the executions of the loop body, that is the
  \<open>window.scrollTo\<close> commands sent to the page.
\<close>

record walk_state =
  product_urls :: "string list"
  last_height :: int
  scroll_attempts :: int
  no_change_count :: int
  scrolls :: nat

text \<open>
  What the page answers in one loop iteration: \<open>document.body.scrollHeight\<close> and the
  \<open>href\<close> property of every anchor matching \<open>a[href*="/p/"]\<close>; \<open>None\<close> when one of
  the three \<open>page.evaluate\<close> calls raises.
\<close>

type_synonym listing_page = "nat \<Rightarrow> (int \<times> string list) option"

text \<open>\<open>max_products and len(product_urls) >= max_products\<close>: \<open>None\<close> and \<open>0\<close> are falsy.\<close>

definition limit_reached :: "int option \<Rightarrow> string list \<Rightarrow> bool" where
  "limit_reached max_products urls =
     (case max_products of
        None \<Rightarrow> False
      | Some m \<Rightarrow> m \<noteq> 0 \<and> m \<le> int (length urls))"

text \<open>The \<open>for url in current_urls\<close> loop with its \<open>break\<close> (lines 193-199).\<close>

fun add_unique :: "int option \<Rightarrow> string list \<Rightarrow> string list \<Rightarrow> string list" where
  "add_unique max_products [] urls = urls"
| "add_unique max_products (url # rest) urls =
     (if url \<notin> set urls then
        (if limit_reached max_products (urls @ [url]) then urls @ [url]
         else add_unique max_products rest (urls @ [url]))
      else add_unique max_products rest urls)"

text \<open>The JavaScript of lines 186-189: \<open>links.map(link => link.href).filter(href => href.includes('/p/'))\<close>.\<close>

definition current_urls :: "string list \<Rightarrow> string list" where
  "current_urls hrefs = filter (\<lambda>href. str_includes href ''/p/'') hrefs"

datatype 'a flow = Break 'a | Next 'a

text \<open>One execution of the body of \<open>while scroll_attempts < max_scrolls\<close> (lines 177-218).\<close>

definition walk_body :: "int option \<Rightarrow> int \<times> string list \<Rightarrow> walk_state \<Rightarrow> walk_state flow" where
  "walk_body max_products obs st =
     (let current_height = fst obs;
          st1 = st\<lparr>scrolls := Suc (scrolls st),
                   product_urls := add_unique max_products (current_urls (snd obs)) (product_urls st)\<rparr>
      in if limit_reached max_products (product_urls st1) then Break st1
         else if current_height = last_height st1 then
           (let st2 = st1\<lparr>no_change_count := no_change_count st1 + 1\<rparr>
            in if 3 \<le> no_change_count st2 then Break st2
               else Next (st2\<lparr>last_height := current_height,
                               scroll_attempts := scroll_attempts st2 + 1\<rparr>))
         else Next (st1\<lparr>no_change_count := 0, last_height := current_height,
                         scroll_attempts := scroll_attempts st1 + 1\<rparr>))"

function walk_loop :: "listing_page \<Rightarrow> int \<Rightarrow> int option \<Rightarrow> walk_state \<Rightarrow> error + walk_state" where
  "walk_loop page max_scrolls max_products st =
     (if scroll_attempts st < max_scrolls then
        (case page (scrolls st) of
           None \<Rightarrow> Inl RendererError
         | Some obs \<Rightarrow>
             (case walk_body max_products obs st of
                Break st' \<Rightarrow> Inr st'
              | Next st' \<Rightarrow> walk_loop page max_scrolls max_products st'))
      else Inr st)"
  by pat_completeness auto
termination
  by (relation "measure (\<lambda>(page, max_scrolls, max_products, st). nat (max_scrolls - scroll_attempts st))")
     (auto simp: walk_body_def Let_def split: if_splits)

declare walk_loop.simps [simp del]

definition walk_init :: walk_state where
  "walk_init = \<lparr>product_urls = [], last_height = 0, scroll_attempts = 0,
                no_change_count = 0, scrolls = 0\<rparr>"

text \<open>
  \<open>list(set(product_urls))\<close>: the elements without repetition, in the iteration order of
  the hash set. That order is not fixed by the program (string hashes are salted per
  process); the model takes it from a key function and sorts by it, so every order is
  possible and the result is always a permutation of the distinct elements.
\<close>

definition list_of_set :: "(string \<Rightarrow> nat) \<Rightarrow> string list \<Rightarrow> string list" where
  "list_of_set order_key xs = sort_key order_key (remdups xs)"

definition scroll_and_load_products ::
    "listing_page \<Rightarrow> (string \<Rightarrow> nat) \<Rightarrow> int \<Rightarrow> int option \<Rightarrow> error + string list" where
  "scroll_and_load_products page order_key max_scrolls max_products =
     (case walk_loop page max_scrolls max_products walk_init of
        Inl e \<Rightarrow> Inl e
      | Inr st \<Rightarrow> Inr (list_of_set order_key (product_urls st)))"

subsection \<open>The product page as the injected script reads it\<close>

text \<open>An \<open>img\<close> element: its \<open>src\<close> property and its \<open>data-src\<close> attribute (\<open>None\<close> for \<open>null\<close>).\<close>

record img =
  src :: string
  data_src :: "string option"

text \<open>
  The answers of the DOM queries of lines 240-328, in the order the script asks them.
  \<open>title_els\<close> has, for each title selector in turn, the \<open>textContent\<close> of the element
  \<open>document.querySelector\<close> finds (\<open>None\<close> when it finds none); \<open>size_groups\<close> has, for
  each size selector in turn, the \<open>textContent\<close> of every node it matches.
\<close>

record dom =
  title_els :: "string option list"
  price_el :: "string option"
  body_text :: string
  product_img :: "img option"
  all_imgs :: "img list"
  desc_el :: "string option"
  size_groups :: "string list list"
  breadcrumb :: "string list"
  pathname :: string
  location_href :: string

record metadata =
  meta_url :: string
  meta_breadcrumbs :: "string list"

text \<open>The object \<open>data\<close> the script returns; a key the script may leave unset is an option.\<close>

record page_data =
  data_title :: "string option"
  data_price_text :: "string option"
  data_currency :: string
  data_image_url :: string
  data_description :: string
  data_sizes :: "string list"
  data_category :: string
  data_gender :: string
  data_metadata :: metadata

text \<open>Title (lines 244-259): the first selector whose element has non-blank text.\<close>

fun first_title :: "string option list \<Rightarrow> string option" where
  "first_title [] = None"
| "first_title (None # els) = first_title els"
| "first_title (Some text # els) =
     (if js_trim text \<noteq> [] then Some (js_trim text) else first_title els)"

text \<open>
  Price (lines 262-267). \<open>priceText.match(/[0-9,]+\.?[0-9]*/)\<close> is the leftmost match:
  it starts at the first digit or comma, takes the longest run of digits and commas,
  then a dot if one follows, then the longest run of digits.
\<close>

definition digit_or_comma :: "char \<Rightarrow> bool" where
  "digit_or_comma c = (is_digit c \<or> c = CHR '','')"

definition price_match_at :: "string \<Rightarrow> string" where
  "price_match_at s =
     (case dropWhile digit_or_comma s of
        [] \<Rightarrow> takeWhile digit_or_comma s
      | c # rest \<Rightarrow>
          if c = CHR ''.'' then takeWhile digit_or_comma s @ ''.'' @ takeWhile is_digit rest
          else takeWhile digit_or_comma s)"

fun price_match :: "string \<Rightarrow> string option" where
  "price_match [] = None"
| "price_match (c # cs) =
     (if digit_or_comma c then Some (price_match_at (c # cs)) else price_match cs)"

text \<open>\<open>priceMatch[0].replace(',', '')\<close>: a string pattern replaces the first occurrence only.\<close>

fun replace_first :: "char \<Rightarrow> string \<Rightarrow> string" where
  "replace_first x [] = []"
| "replace_first x (c # cs) = (if c = x then cs else c # replace_first x cs)"

definition js_price_text :: "string option \<Rightarrow> string option" where
  "js_price_text el =
     (case el of
        None \<Rightarrow> None
      | Some text \<Rightarrow>
          (case price_match (js_trim text) of
             Some m \<Rightarrow> Some (replace_first CHR '','' m)
           | None \<Rightarrow> Some []))"

text \<open>Currency (lines 270-271): the leftmost match of \<open>/\$|USD|EUR|GBP/\<close> in the body text.\<close>

fun currency_match :: "string \<Rightarrow> string option" where
  "currency_match [] = None"
| "currency_match (c # cs) =
     (if startswith (c # cs) ''$'' then Some ''$''
      else if startswith (c # cs) ''USD'' then Some ''USD''
      else if startswith (c # cs) ''EUR'' then Some ''EUR''
      else if startswith (c # cs) ''GBP'' then Some ''GBP''
      else currency_match cs)"

definition js_currency :: "string \<Rightarrow> string" where
  "js_currency body =
     (case currency_match body of
        Some m \<Rightarrow> if m = ''$'' then ''USD'' else m
      | None \<Rightarrow> ''USD'')"

text \<open>Image URL (lines 274-283): \<open>img.src || img.getAttribute('data-src') || ''\<close>.\<close>

definition img_source :: "img \<Rightarrow> string" where
  "img_source i =
     (if src i \<noteq> [] then src i
      else case data_src i of Some d \<Rightarrow> d | None \<Rightarrow> [])"

definition large_product_image :: "img \<Rightarrow> bool" where
  "large_product_image i =
     (str_includes (img_source i) ''product'' \<or>
      (str_includes (img_source i) ''ae.com'' \<and>
       (str_includes (img_source i) ''.jpg'' \<or> str_includes (img_source i) ''.png'')))"

definition js_image_url :: "dom \<Rightarrow> string" where
  "js_image_url d =
     (case (case product_img d of
              Some i \<Rightarrow> Some i
            | None \<Rightarrow> find large_product_image (all_imgs d)) of
        Some i \<Rightarrow> img_source i
      | None \<Rightarrow> [])"

text \<open>Sizes (lines 290-304): the first selector that matches anything, texts shorter than 10.\<close>

fun size_buttons :: "string list list \<Rightarrow> string list" where
  "size_buttons [] = []"
| "size_buttons (buttons # groups) = (if buttons \<noteq> [] then buttons else size_buttons groups)"

definition js_sizes :: "string list list \<Rightarrow> string list" where
  "js_sizes groups =
     filter (\<lambda>s. s \<noteq> [] \<and> length s < 10) (map js_trim (size_buttons groups))"

text \<open>Gender (lines 311-318).\<close>

definition js_gender :: "string \<Rightarrow> string" where
  "js_gender path_name =
     (let path = toLowerCase path_name
      in if str_includes path ''/women/'' \<or> str_includes path ''/womens'' then ''WOMAN''
         else if str_includes path ''/men/'' \<or> str_includes path ''/mens'' then ''MAN''
         else ''OTHER'')"

text \<open>The whole script of lines 239-329.\<close>

definition evaluate_product :: "dom \<Rightarrow> page_data" where
  "evaluate_product d =
     \<lparr>data_title = first_title (title_els d),
      data_price_text = js_price_text (price_el d),
      data_currency = js_currency (body_text d),
      data_image_url = js_image_url d,
      data_description = (case desc_el d of Some text \<Rightarrow> js_trim text | None \<Rightarrow> []),
      data_sizes = js_sizes (size_groups d),
      data_category = (if breadcrumb d \<noteq> [] then js_trim (last (breadcrumb d)) else []),
      data_gender = js_gender (pathname d),
      data_metadata = \<lparr>meta_url = location_href d, meta_breadcrumbs = map js_trim (breadcrumb d)\<rparr>\<rparr>"

subsection \<open>Price parsing in Python (lines 340-350)\<close>

text \<open>
  A Python \<open>float\<close> that is not negative: a double, given by the rational number it is
  equal to, or \<open>inf\<close>.
\<close>

datatype pyfloat = Finite rat | Infinity

text \<open>\<open>int.bit_length()\<close>.\<close>

function bit_length :: "int \<Rightarrow> int" where
  "bit_length n = (if n \<le> 0 then 0 else 1 + bit_length (n div 2))"
  by pat_completeness auto
termination
  by (relation "measure nat") auto

declare bit_length.simps [simp del]

definition pow2 :: "int \<Rightarrow> rat" where
  "pow2 z = (if 0 \<le> z then 2 ^ nat z else 1 / 2 ^ nat (- z))"

text \<open>The integer \<open>z\<close> with \<open>pow2 z \<le> r < pow2 (z + 1)\<close>, for a positive \<open>r\<close>.\<close>

definition floor_log2 :: "rat \<Rightarrow> int" where
  "floor_log2 r =
     (let z = bit_length (fst (quotient_of r)) - bit_length (snd (quotient_of r))
      in if pow2 z \<le> r then z else z - 1)"

definition round_half_even :: "rat \<Rightarrow> int" where
  "round_half_even q =
     (if q - of_int \<lfloor>q\<rfloor> < 1 / 2 then \<lfloor>q\<rfloor>
      else if 1 / 2 < q - of_int \<lfloor>q\<rfloor> then \<lfloor>q\<rfloor> + 1
      else if even \<lfloor>q\<rfloor> then \<lfloor>q\<rfloor> else \<lfloor>q\<rfloor> + 1)"

text \<open>
  The double nearest to a rational \<open>r \<ge> 0\<close>, ties to even, as the correctly rounded
  conversion of \<open>float(s)\<close> gives it: 53 significant bits, the unit in the last place
  not below \<open>pow2 (- 1074)\<close> (subnormal numbers), and \<open>inf\<close> when the rounded value
  reaches \<open>pow2 1024\<close>, that is when its significand \<open>m\<close> and exponent \<open>e\<close> have
  \<open>1024 < bit_length m + e\<close>.
\<close>

definition round_double :: "rat \<Rightarrow> pyfloat" where
  "round_double r =
     (if r = 0 then Finite 0
      else
        (let e = max (floor_log2 r - 52) (- 1074);
             m = round_half_even (r / pow2 e)
         in if 1024 < bit_length m + e then Infinity else Finite (of_int m * pow2 e)))"

text \<open>
  \<open>float(s)\<close> on an unsigned decimal numeral: digits with an optional dot, at least one
  digit in all. The other forms \<open>float\<close> accepts (sign, exponent, \<open>inf\<close>, \<open>nan\<close>,
  underscores, surrounding blanks) need characters that \<open>price_text\<close> never has, since
  the script builds it from digits, commas and dots. \<open>None\<close> is \<open>ValueError\<close>.
\<close>

definition digits_value :: "string \<Rightarrow> int" where
  "digits_value ds = foldl (\<lambda>n c. 10 * n + (of_char c - 48)) 0 ds"

definition decimal :: "string \<Rightarrow> string \<Rightarrow> rat" where
  "decimal ip fp = of_int (digits_value ip) + of_int (digits_value fp) / 10 ^ length fp"

definition py_float :: "string \<Rightarrow> pyfloat option" where
  "py_float s =
     (case dropWhile is_digit s of
        [] \<Rightarrow> if s = [] then None else Some (round_double (decimal s []))
      | c # fp \<Rightarrow>
          if c = CHR ''.'' \<and> list_all is_digit fp \<and> \<not> (takeWhile is_digit s = [] \<and> fp = [])
          then Some (round_double (decimal (takeWhile is_digit s) fp))
          else None)"

text \<open>\<open>re.search(r'(\d+\.?\d*)', price_text)\<close>: group 1 of the leftmost match.\<close>

definition number_at :: "string \<Rightarrow> string" where
  "number_at s =
     (case dropWhile is_digit s of
        [] \<Rightarrow> takeWhile is_digit s
      | c # rest \<Rightarrow>
          if c = CHR ''.'' then takeWhile is_digit s @ ''.'' @ takeWhile is_digit rest
          else takeWhile is_digit s)"

fun number_search :: "string \<Rightarrow> string option" where
  "number_search [] = None"
| "number_search (c # cs) = (if is_digit c then Some (number_at (c # cs)) else number_search cs)"

definition parse_price :: "string option \<Rightarrow> pyfloat option" where
  "parse_price price_text =
     (case price_text of
        None \<Rightarrow> None
      | Some s \<Rightarrow>
          if s = [] then None
          else (case py_float s of
                  Some v \<Rightarrow> Some v
                | None \<Rightarrow>
                    (case number_search s of
                       Some m \<Rightarrow> py_float m
                     | None \<Rightarrow> None)))"

subsection \<open>Embedding (\<open>ImageEmbedder.generate_embedding\<close>)\<close>

text \<open>
  \<open>model\<close> stands for lines 59-74: download, decode, run SigLIP, normalise, convert to a
  list. \<open>None\<close> is any exception raised there, caught at line 83.
\<close>

definition generate_embedding :: "(string \<Rightarrow> 'f list option) \<Rightarrow> string \<Rightarrow> 'f list option" where
  "generate_embedding model image_url =
     (case model image_url of
        None \<Rightarrow> None
      | Some embedding_list \<Rightarrow>
          if length embedding_list \<noteq> 768 then None else Some embedding_list)"

subsection \<open>Product record and environment\<close>

text \<open>The dictionary \<open>result\<close> of lines 364-380; the key \<open>embedding\<close> is set at line 387 or absent.\<close>

record 'f product =
  product_id :: string
  source :: string
  product_url :: string
  affiliate_url :: "string option"
  image_url :: string
  brand :: string
  title :: string
  description :: "string option"
  category :: "string option"
  gender :: string
  price :: "pyfloat option"
  currency :: string
  size_joined :: "string option"
  second_hand :: bool
  metadata :: metadata
  embedding :: "'f list option"

text \<open>
  What is outside the program. The first three are library functions; the others answer
  at a clock value \<open>t\<close>.
  \<^item> \<open>urljoin\<close>: \<open>urllib.parse.urljoin\<close>, \<open>None\<close> when it raises \<open>ValueError\<close>;
  \<^item> \<open>sha256_hex\<close>: \<open>hashlib.sha256(s.encode()).hexdigest()\<close>;
  \<^item> \<open>set_order\<close>: the key that orders the iteration of a set of strings;
  \<^item> \<open>category_goto\<close>: \<open>browser.new_page()\<close> and \<open>page.goto(category_url)\<close> return normally;
  \<^item> \<open>listing\<close>: the category page, scroll by scroll;
  \<^item> \<open>product_page\<close>: what \<open>page.goto(product_url)\<close> loads, \<open>None\<close> when it or
    \<open>page.evaluate\<close> raises;
  \<^item> \<open>model\<close>: the embedding model on an image URL;
  \<^item> \<open>sink\<close>: the Supabase upsert executes without an exception.
\<close>

record 'f env =
  urljoin :: "string \<Rightarrow> string \<Rightarrow> string option"
  sha256_hex :: "string \<Rightarrow> string"
  set_order :: "nat \<Rightarrow> string \<Rightarrow> nat"
  category_goto :: "nat \<Rightarrow> string \<Rightarrow> bool"
  listing :: "nat \<Rightarrow> listing_page"
  product_page :: "nat \<Rightarrow> string \<Rightarrow> dom option"
  model :: "nat \<Rightarrow> string \<Rightarrow> 'f list option"
  sink :: "nat \<Rightarrow> 'f product \<Rightarrow> bool"

definition base_url :: string where
  "base_url = ''https://www.ae.com''"

subsection \<open>Product extractor: \<open>extract_product_data\<close>\<close>

text \<open>Lines 361-380.\<close>

definition build_result :: "'f env \<Rightarrow> string \<Rightarrow> page_data \<Rightarrow> string \<Rightarrow> 'f product" where
  "build_result e url product_data img_url =
     \<lparr>product_id = sha256_hex e url,
      source = ''scraper'',
      product_url = url,
      affiliate_url = None,
      image_url = img_url,
      brand = ''American Eagle'',
      title = strip (case data_title product_data of Some t \<Rightarrow> t | None \<Rightarrow> []),
      description = (if data_description product_data \<noteq> []
                     then Some (strip (data_description product_data)) else None),
      category = (if data_category product_data \<noteq> []
                  then Some (strip (data_category product_data)) else None),
      gender = data_gender product_data,
      price = parse_price (data_price_text product_data),
      currency = data_currency product_data,
      size_joined = (if data_sizes product_data \<noteq> []
                     then Some (join_comma (data_sizes product_data)) else None),
      second_hand = False,
      metadata = data_metadata product_data,
      embedding = None\<rparr>"

text \<open>Lines 382-390: \<open>if embedding:\<close> is false for \<open>None\<close> and for the empty list.\<close>

definition add_embedding :: "'f env \<Rightarrow> nat \<Rightarrow> 'f product \<Rightarrow> 'f product" where
  "add_embedding e t result =
     (if image_url result \<noteq> [] then
        (case generate_embedding (model e t) (image_url result) of
           Some v \<Rightarrow> if v \<noteq> [] then result\<lparr>embedding := Some v\<rparr> else result
         | None \<Rightarrow> result)
      else result)"

text \<open>
  Lines 355-356 ("Get full image URL"): a URL that does not begin with \<open>http\<close> is joined
  to the base URL.
\<close>

definition full_image_url :: "'f env \<Rightarrow> string \<Rightarrow> string option" where
  "full_image_url e img =
     (if \<not> startswith img ''http'' then urljoin e base_url img else Some img)"

text \<open>
  Lines 331-359 and 392; \<open>None\<close> is the \<open>return None\<close> of lines 334, 338 and 359, and
  that of line 398 when \<open>urljoin\<close> raises.
\<close>

definition extract_page :: "'f env \<Rightarrow> nat \<Rightarrow> string \<Rightarrow> page_data \<Rightarrow> 'f product option" where
  "extract_page e t url product_data =
     (if data_title product_data = None \<or> data_title product_data = Some [] then None
      else if data_image_url product_data = [] then None
      else
        (case full_image_url e (data_image_url product_data) of
           None \<Rightarrow> None
         | Some img \<Rightarrow>
             if \<not> startswith img ''http'' then None
             else Some (add_embedding e t (build_result e url product_data img))))"

text \<open>Lines 234-239 and 394-398: an exception of \<open>page.goto\<close> or \<open>page.evaluate\<close> gives \<open>None\<close>.\<close>

definition extract_product_data :: "'f env \<Rightarrow> nat \<Rightarrow> string \<Rightarrow> 'f product option" where
  "extract_product_data e t url =
     (case product_page e t url of
        None \<Rightarrow> None
      | Some d \<Rightarrow> extract_page e t url (evaluate_product d))"

subsection \<open>Crawl orchestrator: \<open>scrape_category\<close> and \<open>run\<close>\<close>

text \<open>
  The scraper object. \<open>clock\<close>, \<open>outcomes\<close>, \<open>upserts\<close> and \<open>categories_entered\<close> are not
  attributes of the source: they record its effects, namely how many times it has
  turned to the outside, the product URLs passed to \<open>extract_product_data\<close>, each with
  \<open>True\<close> when the log says \<open>[OK] Saved\<close> and \<open>False\<close> when it says \<open>[FAIL]\<close>, the
  records passed to \<open>upsert_product\<close> and the category URLs for which
  \<open>scrape_category\<close> was entered (each oldest first).
\<close>

record 'f scraper =
  scraped_urls :: "string set"
  failed_urls :: "string set"
  clock :: nat
  outcomes :: "(string \<times> bool) list"
  upserts :: "'f product list"
  categories_entered :: "string list"

text \<open>\<open>__init__\<close> (lines 151-152).\<close>

definition new_scraper :: "'f scraper" where
  "new_scraper = \<lparr>scraped_urls = {}, failed_urls = {}, clock = 0, outcomes = [],
                  upserts = [], categories_entered = []\<rparr>"

text \<open>
  One round of \<open>for product_url in product_urls\<close> (lines 423-450).
  \<open>extract_product_data\<close> and \<open>upsert_product\<close> turn every exception into \<open>None\<close> and
  \<open>False\<close>, so the handler of line 447 has nothing left to catch; it would add the URL
  to \<open>failed_urls\<close> as the two \<open>else\<close> branches do. \<open>upsert_product\<close> copies the record
  into the row it sends, so the sink is asked about the record itself.
\<close>

definition process_product :: "'f env \<Rightarrow> 'f scraper \<Rightarrow> string \<Rightarrow> 'f scraper" where
  "process_product e s url =
     (if url \<in> scraped_urls s then s
      else
        (let s1 = s\<lparr>clock := Suc (clock s)\<rparr>
         in case extract_product_data e (clock s) url of
              None \<Rightarrow>
                s1\<lparr>outcomes := outcomes s @ [(url, False)],
                   failed_urls := insert url (failed_urls s)\<rparr>
            | Some product_data \<Rightarrow>
                if title product_data = [] then
                  s1\<lparr>outcomes := outcomes s @ [(url, False)],
                     failed_urls := insert url (failed_urls s)\<rparr>
                else if sink e (clock s) product_data then
                  s1\<lparr>outcomes := outcomes s @ [(url, True)],
                     upserts := upserts s @ [product_data],
                     scraped_urls := insert url (scraped_urls s)\<rparr>
                else
                  s1\<lparr>outcomes := outcomes s @ [(url, False)],
                     upserts := upserts s @ [product_data],
                     failed_urls := insert url (failed_urls s)\<rparr>))"

text \<open>
  \<open>scrape_category\<close>: the \<open>try\<close> of line 412 has a \<open>finally\<close> and no \<open>except\<close>, so an
  exception of \<open>page.goto\<close> or of the walker leaves the function; the first component of
  the result is that exception. \<open>max_scrolls\<close> keeps its default, 50.
\<close>

definition scrape_category ::
    "'f env \<Rightarrow> int option \<Rightarrow> string \<Rightarrow> 'f scraper \<Rightarrow> error option \<times> 'f scraper" where
  "scrape_category e max_products category_url s =
     (let s1 = s\<lparr>clock := Suc (clock s),
                 categories_entered := categories_entered s @ [category_url]\<rparr>
      in if \<not> category_goto e (clock s) category_url then (Some RendererError, s1)
         else
           (case scroll_and_load_products (listing e (clock s)) (set_order e (clock s)) 50
                   max_products of
              Inl err \<Rightarrow> (Some err, s1)
            | Inr urls \<Rightarrow> (None, foldl (process_product e) s1 urls)))"

text \<open>
  \<open>run\<close>, once the browser is launched: the \<open>try\<close> of line 467 has a \<open>finally\<close> and no
  \<open>except\<close> either, so an exception of \<open>scrape_category\<close> ends the \<open>for\<close> loop and
  leaves \<open>run\<close>. The scraper object keeps what it has recorded until then.
\<close>

fun run :: "'f env \<Rightarrow> string list \<Rightarrow> int option \<Rightarrow> 'f scraper \<Rightarrow> error option \<times> 'f scraper" where
  "run e [] max_products_per_category s = (None, s)"
| "run e (category_url # rest) max_products_per_category s =
     (case scrape_category e max_products_per_category category_url s of
        (Some err, s') \<Rightarrow> (Some err, s')
      | (None, s') \<Rightarrow> run e rest max_products_per_category s')"

subsection \<open>Predicates of the specification\<close>

text \<open>An absolute HTTP(S) URL begins with \<open>http://\<close> or \<open>https://\<close>.\<close>

definition absolute_http_url :: "string \<Rightarrow> bool" where
  "absolute_http_url u = (startswith u ''http://'' \<or> startswith u ''https://'')"

text \<open>An absolute URL begins with a scheme (a letter, then letters, digits, +, - or .) and a colon.\<close>

definition scheme_char :: "char \<Rightarrow> bool" where
  "scheme_char c =
     (c \<in> set ''abcdefghijklmnopqrstuvwxyzABCDEFGHIJKLMNOPQRSTUVWXYZ0123456789+-.'')"

definition is_absolute_url :: "string \<Rightarrow> bool" where
  "is_absolute_url u =
     (case dropWhile scheme_char u of
        [] \<Rightarrow> False
      | c # rest \<Rightarrow> c = CHR '':'' \<and> takeWhile scheme_char u \<noteq> [] \<and> \<not> is_digit (hd u)
                      \<and> hd u \<notin> set ''+-.'')"

text \<open>
  The height reported at scroll \<open>k\<close> is the one reported at the scroll before (at the
  first scroll: the initial \<open>last_height\<close>, 0).
\<close>

definition height_unchanged :: "(nat \<Rightarrow> int) \<Rightarrow> nat \<Rightarrow> bool" where
  "height_unchanged h k = (h k = (if k = 0 then 0 else h (k - 1)))"

subsection \<open>Example pages and environments\<close>

definition tee_url :: string where
  "tee_url = ''https://www.ae.com/us/en/p/men/tee/0001''"

definition cap_url :: string where
  "cap_url = ''https://www.ae.com/us/en/p/men/cap/0002''"

definition mens_url :: string where
  "mens_url = ''https://www.ae.com/us/en/c/men/mens?pagetype=clp''"

definition womens_url :: string where
  "womens_url = ''https://www.ae.com/us/en/c/women/womens?pagetype=clp''"

text \<open>A category page of constant height 0 with two product links and one other link.\<close>

definition static_height :: "nat \<Rightarrow> int" where
  "static_height k = 0"

definition static_links :: "nat \<Rightarrow> string list" where
  "static_links k = [tee_url, ''https://www.ae.com/us/en/c/men'', cap_url, tee_url]"

definition static_page :: listing_page where
  "static_page k = Some (static_height k, static_links k)"

text \<open>
  A category page with one anchor whose \<open>href\<close> attribute, \<open>//[bad/p/x\<close>, the browser
  cannot resolve: the \<open>href\<close> property is then the text of the attribute.
\<close>

definition unresolved_page :: listing_page where
  "unresolved_page k = Some (0, [''//[bad/p/x''])"

text \<open>A category page that shrinks at every scroll and has no product link.\<close>

definition shrinking_height :: "nat \<Rightarrow> int" where
  "shrinking_height k = 1000 - int k"

definition shrinking_page :: listing_page where
  "shrinking_page k = Some (shrinking_height k, [])"

text \<open>A category page that grows at every scroll and shows a new product each time.\<close>

definition growing_height :: "nat \<Rightarrow> int" where
  "growing_height k = 1000 + int k"

definition growing_links :: "nat \<Rightarrow> string list" where
  "growing_links k = [''https://www.ae.com/p/'' @ replicate k CHR ''x'']"

definition growing_page :: listing_page where
  "growing_page k = Some (growing_height k, growing_links k)"

text \<open>A product page with a title, a price and a product image.\<close>

definition tee_dom :: dom where
  "tee_dom =
     \<lparr>title_els = [None, Some '' Graphic Tee ''],
      price_el = Some ''$49.99'',
      body_text = ''Graphic Tee $49.99'',
      product_img = Some \<lparr>src = ''https://s7d2.scene7.com/is/image/aeo/0001_f'', data_src = None\<rparr>,
      all_imgs = [],
      desc_el = None,
      size_groups = [[], [''S'', ''M'']],
      breadcrumb = [''Men'', ''Tees''],
      pathname = ''/us/en/p/men/tee/0001'',
      location_href = tee_url\<rparr>"

text \<open>A lazily loaded image whose \<open>data-src\<close> is a relative path beginning with \<open>http\<close>.\<close>

definition lazy_dom :: dom where
  "lazy_dom = tee_dom\<lparr>product_img := Some \<lparr>src = [], data_src = Some ''httpdocs/img/0001.jpg''\<rparr>\<rparr>"

text \<open>A title that is the single character U+001F, which Python strips and JavaScript keeps.\<close>

definition blank_title_dom :: dom where
  "blank_title_dom = tee_dom\<lparr>title_els := [Some [CHR 0x1F]]\<rparr>"

text \<open>A price with two thousands separators.\<close>

definition million_dom :: dom where
  "million_dom = tee_dom\<lparr>price_el := Some ''1,234,567.00''\<rparr>"

text \<open>No title element at all.\<close>

definition untitled_dom :: dom where
  "untitled_dom = tee_dom\<lparr>title_els := [None, None]\<rparr>"

text \<open>
  An environment in which everything works: both categories show \<open>static_page\<close>, every
  product page is \<open>tee_dom\<close>, the model answers 768 numbers and the sink accepts.
\<close>

definition good_env :: "int env" where
  "good_env =
     \<lparr>urljoin = (\<lambda>base u. Some (base @ ''/'' @ u)),
      sha256_hex = (\<lambda>u. ''sha256:'' @ u),
      set_order = (\<lambda>t u. length u),
      category_goto = (\<lambda>t u. True),
      listing = (\<lambda>t. static_page),
      product_page = (\<lambda>t u. Some tee_dom),
      model = (\<lambda>t u. Some (replicate 768 0)),
      sink = (\<lambda>t r. True)\<rparr>"

text \<open>The model answers 512 numbers.\<close>

definition short_model_env :: "int env" where
  "short_model_env = good_env\<lparr>model := (\<lambda>t u. Some (replicate 512 0))\<rparr>"

text \<open>The product page cannot be loaded at clock value 1 and can at any other.\<close>

definition flaky_env :: "int env" where
  "flaky_env = good_env\<lparr>product_page := (\<lambda>t u. if t = 1 then None else Some tee_dom)\<rparr>"

text \<open>The page of \<open>tee_url\<close> can never be loaded.\<close>

definition dead_env :: "int env" where
  "dead_env = good_env\<lparr>product_page := (\<lambda>t u. if u = tee_url then None else Some tee_dom)\<rparr>"

text \<open>Navigation to the men's category fails.\<close>

definition broken_env :: "int env" where
  "broken_env = good_env\<lparr>category_goto := (\<lambda>t u. u \<noteq> mens_url)\<rparr>"

text \<open>Every product page is \<open>lazy_dom\<close>; its image cannot be downloaded.\<close>

definition lazy_env :: "int env" where
  "lazy_env = good_env\<lparr>product_page := (\<lambda>t u. Some lazy_dom), model := (\<lambda>t u. None)\<rparr>"

text \<open>Every product page is \<open>blank_title_dom\<close>, \<open>untitled_dom\<close>, \<open>million_dom\<close>.\<close>

definition blank_title_env :: "int env" where
  "blank_title_env = good_env\<lparr>product_page := (\<lambda>t u. Some blank_title_dom)\<rparr>"

definition untitled_env :: "int env" where
  "untitled_env = good_env\<lparr>product_page := (\<lambda>t u. Some untitled_dom)\<rparr>"

definition million_env :: "int env" where
  "million_env = good_env\<lparr>product_page := (\<lambda>t u. Some million_dom)\<rparr>"

subsection \<open>Loop invariant of the walker\<close>

text \<open>
  At the head of the loop, for a page that reports height \<open>h k\<close> at scroll \<open>k\<close>:
  \<open>last_height\<close> is the height of the scroll before, \<open>scroll_attempts\<close> is the number of
  scrolls, \<open>no_change_count\<close> is the length (0, 1 or 2) of the run of unchanged heights
  that ends at the scroll before, and no three scrolls in a row were unchanged so far.
\<close>

definition hinv :: "(nat \<Rightarrow> int) \<Rightarrow> walk_state \<Rightarrow> bool" where
  "hinv h s =
     (last_height s = (if scrolls s = 0 then 0 else h (scrolls s - 1)) \<and>
      scroll_attempts s = int (scrolls s) \<and>
      (no_change_count s = 0 \<and> (0 < scrolls s \<longrightarrow> \<not> height_unchanged h (scrolls s - 1)) \<or>
       no_change_count s = 1 \<and> 1 \<le> scrolls s \<and> height_unchanged h (scrolls s - 1) \<and>
         (1 < scrolls s \<longrightarrow> \<not> height_unchanged h (scrolls s - 2)) \<or>
       no_change_count s = 2 \<and> 2 \<le> scrolls s \<and> height_unchanged h (scrolls s - 1) \<and>
         height_unchanged h (scrolls s - 2)) \<and>
      (\<forall>k. k + 3 \<le> scrolls s \<longrightarrow>
         \<not> (height_unchanged h k \<and> height_unchanged h (Suc k) \<and> height_unchanged h (Suc (Suc k)))))"

subsection \<open>Invariant of the orchestrator\<close>

text \<open>
  What the two sets and the trace of outcomes have to do with each other: a URL is in
  the success set when an attempt on it was saved, in the failure set when an attempt on
  it failed, and no attempt on a URL comes after a saved one.
\<close>

definition outcomes_inv :: "'f scraper \<Rightarrow> bool" where
  "outcomes_inv s =
     (scraped_urls s = {u. (u, True) \<in> set (outcomes s)} \<and>
      failed_urls s = {u. (u, False) \<in> set (outcomes s)} \<and>
      (\<forall>xs ys u. outcomes s = xs @ (u, True) # ys \<longrightarrow> u \<notin> fst ` set ys))"

section \<open>Properties of the walker\<close>

lemma add_unique_set: "set (add_unique mp xs acc) \<subseteq> set acc \<union> set xs"
  by (induction mp xs acc rule: add_unique.induct) auto

lemma add_unique_distinct: "distinct acc \<Longrightarrow> distinct (add_unique mp xs acc)"
  by (induction mp xs acc rule: add_unique.induct) auto


lemma walk_loop_rule:
  assumes "walk_loop page ms mp st = Inr st'"
    and "I st"
    and "\<And>s obs s'. I s \<Longrightarrow> scroll_attempts s < ms \<Longrightarrow> page (scrolls s) = Some obs \<Longrightarrow>
            walk_body mp obs s = Next s' \<Longrightarrow> I s'"
    and "\<And>s obs s'. I s \<Longrightarrow> scroll_attempts s < ms \<Longrightarrow> page (scrolls s) = Some obs \<Longrightarrow>
            walk_body mp obs s = Break s' \<Longrightarrow> Q s'"
    and "\<And>s. I s \<Longrightarrow> ms \<le> scroll_attempts s \<Longrightarrow> Q s"
  shows "Q st'"
  using assms
proof (induction page ms mp st rule: walk_loop.induct)
  case (1 page ms mp st)
  note run = "1.prems"(1) and inv = "1.prems"(2) and step = "1.prems"(3)
    and brk = "1.prems"(4) and exit = "1.prems"(5)
  show ?case
  proof (cases "scroll_attempts st < ms")
    case False
    with run have "st' = st" by (simp add: walk_loop.simps [of page ms mp st])
    with exit [OF inv] False show ?thesis by simp
  next
    case True
    with run obtain obs where obs: "page (scrolls st) = Some obs"
      by (auto simp: walk_loop.simps [of page ms mp st] split: option.splits)
    show ?thesis
    proof (cases "walk_body mp obs st")
      case (Break s')
      with True obs run have "st' = s'" by (simp add: walk_loop.simps [of page ms mp st])
      with brk [OF inv True obs Break] show ?thesis by simp
    next
      case (Next s')
      with True obs run have "walk_loop page ms mp s' = Inr st'"
        by (simp add: walk_loop.simps [of page ms mp st])
      moreover have "I s'" by (rule step [OF inv True obs Next])
      ultimately show ?thesis using "1.IH" [OF True obs Next] step brk exit by blast
    qed
  qed
qed

lemma walk_body_scrolls:
  "walk_body mp obs s = Next s' \<or> walk_body mp obs s = Break s' \<Longrightarrow> scrolls s' = Suc (scrolls s)"
  by (auto simp: walk_body_def Let_def split: if_splits)

lemma walk_body_Next_attempts:
  "walk_body mp obs s = Next s' \<Longrightarrow> scroll_attempts s' = scroll_attempts s + 1"
  by (auto simp: walk_body_def Let_def split: if_splits)

lemma walk_body_urls:
  "walk_body mp obs s = Next s' \<or> walk_body mp obs s = Break s' \<Longrightarrow>
     product_urls s' = add_unique mp (current_urls (snd obs)) (product_urls s)"
  by (auto simp: walk_body_def Let_def split: if_splits)

lemma walk_loop_scrolls_bound:
  assumes "walk_loop page ms mp walk_init = Inr st"
  shows "int (scrolls st) \<le> max 0 ms"
proof (rule walk_loop_rule [OF assms,
      where I = "\<lambda>s. int (scrolls s) = scroll_attempts s \<and> scroll_attempts s \<le> max 0 ms"])
  show "int (scrolls walk_init) = scroll_attempts walk_init \<and> scroll_attempts walk_init \<le> max 0 ms"
    by (simp add: walk_init_def)
next
  fix s obs s'
  assume "int (scrolls s) = scroll_attempts s \<and> scroll_attempts s \<le> max 0 ms"
    "scroll_attempts s < ms" "walk_body mp obs s = Next s'"
  then show "int (scrolls s') = scroll_attempts s' \<and> scroll_attempts s' \<le> max 0 ms"
    using walk_body_scrolls [of mp obs s s'] walk_body_Next_attempts [of mp obs s s'] by auto
next
  fix s obs s'
  assume "int (scrolls s) = scroll_attempts s \<and> scroll_attempts s \<le> max 0 ms"
    "scroll_attempts s < ms" "walk_body mp obs s = Break s'"
  then show "int (scrolls s') \<le> max 0 ms"
    using walk_body_scrolls [of mp obs s s'] by auto
next
  fix s
  assume "int (scrolls s) = scroll_attempts s \<and> scroll_attempts s \<le> max 0 ms"
  then show "int (scrolls s) \<le> max 0 ms" by simp
qed

lemma walk_loop_growing:
  assumes h0: "last_height st < h (scrolls st)" and inc: "\<And>k. h k < h (Suc k)"
    and att: "scroll_attempts st = int (scrolls st)"
  shows "\<exists>st'. walk_loop (\<lambda>k. Some (h k, us k)) ms None st = Inr st' \<and>
           int (scrolls st') = max (scroll_attempts st) ms"
  using h0 att
proof (induction "\<lambda>k. Some (h k, us k)" ms "None :: int option" st rule: walk_loop.induct)
  case (1 ms st)
  show ?case
  proof (cases "scroll_attempts st < ms")
    case False
    then show ?thesis using "1.prems" by (simp add: walk_loop.simps [of _ ms None st])
  next
    case True
    define s' where "s' = st\<lparr>scrolls := Suc (scrolls st),
        product_urls := add_unique None (current_urls (us (scrolls st))) (product_urls st),
        no_change_count := 0, last_height := h (scrolls st),
        scroll_attempts := scroll_attempts st + 1\<rparr>"
    have body: "walk_body None (h (scrolls st), us (scrolls st)) st = Next s'"
      using "1.prems" by (simp add: walk_body_def Let_def limit_reached_def s'_def)
    have "last_height s' < h (scrolls s')" "scroll_attempts s' = int (scrolls s')"
      using inc [of "scrolls st"] "1.prems" by (simp_all add: s'_def)
    from "1.hyps" [OF True refl body this] obtain st' where
      "walk_loop (\<lambda>k. Some (h k, us k)) ms None s' = Inr st'"
      "int (scrolls st') = max (scroll_attempts s') ms" by blast
    moreover have "scroll_attempts s' \<le> ms" using True by (simp add: s'_def)
    ultimately show ?thesis using True body
      by (simp add: walk_loop.simps [of _ ms None st])
  qed
qed


lemma current_urls_marker: "u \<in> set (current_urls hrefs) \<Longrightarrow> str_includes u ''/p/'' \<and> u \<in> set hrefs"
  by (simp add: current_urls_def)

lemma walk_body_not_reached:
  "walk_body mp obs s = Next s' \<Longrightarrow> \<not> limit_reached mp (product_urls s') \<and> no_change_count s' < 3"
  by (auto simp: walk_body_def Let_def split: if_splits)

lemma walk_loop_urls:
  assumes "walk_loop page ms mp walk_init = Inr st"
  shows "distinct (product_urls st) \<and>
         (\<forall>u\<in>set (product_urls st). str_includes u ''/p/'' \<and>
            (\<exists>k h hrefs. page k = Some (h, hrefs) \<and> u \<in> set hrefs))"
    (is "?P st")
proof (rule walk_loop_rule [OF assms, where I = ?P])
  show "?P walk_init" by (simp add: walk_init_def)
next
  fix s obs s'
  assume inv: "?P s" and obs: "page (scrolls s) = Some obs"
  have grow: "product_urls s' = add_unique mp (current_urls (snd obs)) (product_urls s) \<Longrightarrow> ?P s'"
  proof -
    assume eq: "product_urls s' = add_unique mp (current_urls (snd obs)) (product_urls s)"
    have "distinct (product_urls s')" using inv eq by (simp add: add_unique_distinct)
    moreover have "str_includes u ''/p/'' \<and> (\<exists>k h hrefs. page k = Some (h, hrefs) \<and> u \<in> set hrefs)"
      if "u \<in> set (product_urls s')" for u
    proof -
      from that eq add_unique_set [of mp "current_urls (snd obs)" "product_urls s"]
      consider "u \<in> set (product_urls s)" | "u \<in> set (current_urls (snd obs))" by auto
      then show ?thesis
      proof cases
        case 1
        with inv show ?thesis by blast
      next
        case 2
        then have "str_includes u ''/p/''" "u \<in> set (snd obs)"
          using current_urls_marker by blast+
        moreover have "page (scrolls s) = Some (fst obs, snd obs)" using obs by simp
        ultimately show ?thesis by blast
      qed
    qed
    ultimately show ?thesis by blast
  qed
  { assume "walk_body mp obs s = Next s'"
    then show "?P s'" using grow walk_body_urls [of mp obs s s'] by blast }
  { assume "walk_body mp obs s = Break s'"
    then show "?P s'" using grow walk_body_urls [of mp obs s s'] by blast }
qed


lemma list_of_set_props:
  "distinct (list_of_set key xs)" "set (list_of_set key xs) = set xs"
  "length (list_of_set key xs) \<le> length xs"
  by (simp_all add: list_of_set_def length_remdups_leq)

lemma walk_loop_total:
  "\<exists>st. walk_loop (\<lambda>k. Some (f k)) ms mp s = Inr st"
proof (induction "\<lambda>k. Some (f k)" ms mp s rule: walk_loop.induct)
  case (1 ms mp s)
  show ?case
  proof (cases "scroll_attempts s < ms")
    case False
    then show ?thesis by (simp add: walk_loop.simps [of _ ms mp s])
  next
    case True
    show ?thesis
    proof (cases "walk_body mp (f (scrolls s)) s")
      case (Break s')
      with True show ?thesis by (simp add: walk_loop.simps [of _ ms mp s])
    next
      case (Next s')
      from "1.hyps" [OF True refl Next] True Next show ?thesis
        by (simp add: walk_loop.simps [of _ ms mp s])
    qed
  qed
qed

lemma hinv_unchanged: "hinv h s \<Longrightarrow> height_unchanged h (scrolls s) = (h (scrolls s) = last_height s)"
  by (auto simp: hinv_def height_unchanged_def)

lemma hinv_Next:
  assumes "hinv h s" "walk_body mp (h (scrolls s), us) s = Next s'"
  shows "hinv h s'"
proof -
  let ?n = "scrolls s"
  have U: "height_unchanged h ?n = (h ?n = last_height s)" using assms(1) by (rule hinv_unchanged)
  have n': "scrolls s' = Suc ?n" using assms(2) walk_body_scrolls by blast
  have lh: "last_height s' = h ?n" using assms(2)
    by (auto simp: walk_body_def Let_def split: if_splits)
  have att: "scroll_attempts s' = int (Suc ?n)"
    using assms walk_body_Next_attempts [OF assms(2)] by (simp add: hinv_def)
  have cnt: "(h ?n = last_height s \<and> no_change_count s' = no_change_count s + 1 \<and> no_change_count s < 2)
      \<or> (h ?n \<noteq> last_height s \<and> no_change_count s' = 0)"
    using assms(2) by (auto simp: walk_body_def Let_def split: if_splits)
  have three: "\<not> (height_unchanged h k \<and> height_unchanged h (Suc k) \<and> height_unchanged h (Suc (Suc k)))"
    if "k + 3 \<le> Suc ?n" for k
  proof (cases "k + 3 \<le> ?n")
    case True
    with assms(1) show ?thesis by (simp add: hinv_def)
  next
    case False
    with that have k: "Suc (Suc k) = ?n" by simp
    from cnt show ?thesis
    proof
      assume "h ?n \<noteq> last_height s \<and> no_change_count s' = 0"
      with U k show ?thesis by simp
    next
      assume c: "h ?n = last_height s \<and> no_change_count s' = no_change_count s + 1 \<and> no_change_count s < 2"
      with assms(1) have "no_change_count s = 0 \<and> \<not> height_unchanged h (?n - 1) \<or>
          no_change_count s = 1 \<and> \<not> height_unchanged h (?n - 2)"
        using k by (auto simp: hinv_def)
      moreover have "?n - 1 = Suc k" "?n - 2 = k" using k by simp_all
      ultimately show ?thesis by auto
    qed
  qed
  have count: "no_change_count s' = 0 \<and> (0 < Suc ?n \<longrightarrow> \<not> height_unchanged h (Suc ?n - 1)) \<or>
       no_change_count s' = 1 \<and> 1 \<le> Suc ?n \<and> height_unchanged h (Suc ?n - 1) \<and>
         (1 < Suc ?n \<longrightarrow> \<not> height_unchanged h (Suc ?n - 2)) \<or>
       no_change_count s' = 2 \<and> 2 \<le> Suc ?n \<and> height_unchanged h (Suc ?n - 1) \<and>
         height_unchanged h (Suc ?n - 2)"
    using cnt
  proof
    assume "h ?n \<noteq> last_height s \<and> no_change_count s' = 0"
    with U show ?thesis by simp
  next
    assume c: "h ?n = last_height s \<and> no_change_count s' = no_change_count s + 1 \<and> no_change_count s < 2"
    then have Un: "height_unchanged h ?n" using U by simp
    from c assms(1) consider
      "no_change_count s = 0" "0 < ?n \<longrightarrow> \<not> height_unchanged h (?n - 1)"
      | "no_change_count s = 1" "1 \<le> ?n" "height_unchanged h (?n - 1)"
      by (auto simp: hinv_def)
    then show ?thesis
    proof cases
      case 1
      with c Un show ?thesis by (cases ?n) auto
    next
      case 2
      then have "Suc ?n - 2 = ?n - 1" by simp
      with 2 c Un show ?thesis by simp
    qed
  qed
  show ?thesis
    unfolding hinv_def n' using lh att count three by simp
qed

lemma hinv_Break:
  assumes "hinv h s" "walk_body mp (h (scrolls s), us) s = Break s'"
  shows "limit_reached mp (product_urls s') \<or>
         (3 \<le> scrolls s' \<and> height_unchanged h (scrolls s' - 3) \<and>
          height_unchanged h (scrolls s' - 2) \<and> height_unchanged h (scrolls s' - 1))"
proof -
  let ?n = "scrolls s"
  have U: "height_unchanged h ?n = (h ?n = last_height s)" using assms(1) by (rule hinv_unchanged)
  have n': "scrolls s' = Suc ?n" using assms(2) walk_body_scrolls by blast
  from assms(2) have "limit_reached mp (product_urls s') \<or> (h ?n = last_height s \<and> 2 \<le> no_change_count s)"
    by (auto simp: walk_body_def Let_def split: if_splits)
  then show ?thesis
  proof
    assume "h ?n = last_height s \<and> 2 \<le> no_change_count s"
    with assms(1) U have "height_unchanged h ?n" "2 \<le> ?n" "height_unchanged h (?n - 1)"
      "height_unchanged h (?n - 2)" by (auto simp: hinv_def)
    moreover have "Suc ?n - 3 = ?n - 2" "Suc ?n - 2 = ?n - 1" using \<open>2 \<le> ?n\<close> by simp_all
    ultimately show ?thesis unfolding n' by simp
  qed simp
qed

lemma walk_loop_heights:
  assumes "walk_loop (\<lambda>k. Some (h k, us k)) ms mp walk_init = Inr st"
  shows "(limit_reached mp (product_urls st) \<or>
          (3 \<le> scrolls st \<and> height_unchanged h (scrolls st - 3) \<and>
           height_unchanged h (scrolls st - 2) \<and> height_unchanged h (scrolls st - 1)) \<or>
          ms \<le> int (scrolls st)) \<and>
         (\<forall>k. height_unchanged h k \<and> height_unchanged h (Suc k) \<and> height_unchanged h (Suc (Suc k))
            \<longrightarrow> scrolls st \<le> k + 3)"
    (is "?Q st")
proof (rule walk_loop_rule [OF assms, where I = "hinv h"])
  show "hinv h walk_init" by (simp add: hinv_def walk_init_def)
next
  fix s obs s'
  assume "hinv h s" "Some (h (scrolls s), us (scrolls s)) = Some obs" "walk_body mp obs s = Next s'"
  then show "hinv h s'" using hinv_Next by blast
next
  fix s obs s'
  assume inv: "hinv h s" and obs: "Some (h (scrolls s), us (scrolls s)) = Some obs"
    and body: "walk_body mp obs s = Break s'"
  then have b: "walk_body mp (h (scrolls s), us (scrolls s)) s = Break s'" by auto
  have n': "scrolls s' = Suc (scrolls s)" using b walk_body_scrolls by blast
  have "scrolls s' \<le> k + 3"
    if "height_unchanged h k \<and> height_unchanged h (Suc k) \<and> height_unchanged h (Suc (Suc k))" for k
  proof (rule ccontr)
    assume "\<not> scrolls s' \<le> k + 3"
    then have "k + 3 \<le> scrolls s" using n' by simp
    with inv that show False unfolding hinv_def by blast
  qed
  with hinv_Break [OF inv b] show "?Q s'" by blast
next
  fix s
  assume inv: "hinv h s" and "ms \<le> scroll_attempts s"
  then have "ms \<le> int (scrolls s)" by (simp add: hinv_def)
  moreover have "scrolls s \<le> k + 3"
    if "height_unchanged h k \<and> height_unchanged h (Suc k) \<and> height_unchanged h (Suc (Suc k))" for k
  proof (rule ccontr)
    assume "\<not> scrolls s \<le> k + 3"
    then have "k + 3 \<le> scrolls s" by simp
    with inv that show False unfolding hinv_def by blast
  qed
  ultimately show "?Q s" by blast
qed

section \<open>Properties of the extractor and the orchestrator\<close>

lemma add_embedding_fields:
  "image_url (add_embedding e t r) = image_url r" "title (add_embedding e t r) = title r"
  by (auto simp: add_embedding_def split: option.splits)

lemma extract_page_Some:
  assumes "extract_page e t u pd = Some r"
  shows "startswith (image_url r) ''http'' \<and>
         (\<exists>raw. data_title pd = Some raw \<and> raw \<noteq> [] \<and> title r = strip raw)"
  using assms
  by (auto simp: extract_page_def build_result_def add_embedding_fields
           split: if_splits option.splits)

lemma first_title_Some: "first_title els = Some raw \<Longrightarrow> raw \<noteq> []"
  by (induction els rule: first_title.induct) (auto split: if_splits)

lemma extract_product_data_Some:
  assumes "extract_product_data e t u = Some r"
  shows "startswith (image_url r) ''http'' \<and>
         (\<exists>d raw. product_page e t u = Some d \<and> first_title (title_els d) = Some raw \<and>
            raw \<noteq> [] \<and> title r = strip raw)"
proof -
  from assms obtain d where d: "product_page e t u = Some d"
    and ex: "extract_page e t u (evaluate_product d) = Some r"
    by (auto simp: extract_product_data_def split: option.splits)
  from extract_page_Some [OF ex] d show ?thesis
    by (auto simp: evaluate_product_def)
qed

lemma extract_product_data_None:
  assumes "product_page e t u = None \<or>
     (\<exists>d. product_page e t u = Some d \<and>
        (first_title (title_els d) = None \<or> js_image_url d = [] \<or>
         full_image_url e (js_image_url d) = None \<or>
         (\<exists>img. full_image_url e (js_image_url d) = Some img \<and> \<not> startswith img ''http'')))"
  shows "extract_product_data e t u = None"
  using assms
  by (auto simp: extract_product_data_def extract_page_def evaluate_product_def
           split: option.splits)

lemma process_product_sets:
  "(scraped_urls (process_product e s u) = scraped_urls s \<and>
      failed_urls (process_product e s u) = failed_urls s) \<or>
   (scraped_urls (process_product e s u) = insert u (scraped_urls s) \<and>
      failed_urls (process_product e s u) = failed_urls s) \<or>
   (scraped_urls (process_product e s u) = scraped_urls s \<and>
      failed_urls (process_product e s u) = insert u (failed_urls s))"
  by (auto simp: process_product_def Let_def split: option.splits)

lemma process_product_skip: "u \<in> scraped_urls s \<Longrightarrow> process_product e s u = s"
  by (simp add: process_product_def)

lemma process_product_failed:
  "u \<notin> scraped_urls s \<Longrightarrow> extract_product_data e (clock s) u = None \<Longrightarrow>
     upserts (process_product e s u) = upserts s \<and> u \<in> failed_urls (process_product e s u) \<and>
     scraped_urls (process_product e s u) = scraped_urls s"
  by (auto simp: process_product_def Let_def split: option.splits)

lemma process_product_upsert:
  "u \<notin> scraped_urls s \<Longrightarrow> extract_product_data e (clock s) u = Some r \<Longrightarrow> title r \<noteq> [] \<Longrightarrow>
     upserts (process_product e s u) = upserts s @ [r]"
  by (auto simp: process_product_def Let_def split: option.splits)

lemma process_product_upserts:
  "upserts (process_product e s u) = upserts s \<or>
   (\<exists>r. extract_product_data e (clock s) u = Some r \<and> title r \<noteq> [] \<and>
        upserts (process_product e s u) = upserts s @ [r])"
  by (auto simp: process_product_def Let_def split: option.splits)

lemma process_product_categories:
  "categories_entered (process_product e s u) = categories_entered s"
  by (auto simp: process_product_def Let_def split: option.splits)

lemma foldl_invariant:
  "P s \<Longrightarrow> (\<And>s u. P s \<Longrightarrow> P (f s u)) \<Longrightarrow> P (foldl f s us)"
  by (induction us arbitrary: s) auto

lemma scrape_category_invariant:
  assumes "P s"
    and "\<And>s u. P s \<Longrightarrow> P (process_product e s u)"
    and "\<And>s c. P s \<Longrightarrow> P (s\<lparr>clock := Suc (clock s), categories_entered := categories_entered s @ [c]\<rparr>)"
  shows "P (snd (scrape_category e mp c s))"
proof -
  let ?s1 = "s\<lparr>clock := Suc (clock s), categories_entered := categories_entered s @ [c]\<rparr>"
  have "P ?s1" using assms(1,3) by blast
  then have "P (foldl (process_product e) ?s1 us)" for us
    using assms(2) by (rule foldl_invariant)
  with \<open>P ?s1\<close> show ?thesis
    by (auto simp: scrape_category_def Let_def split: sum.splits)
qed

lemma run_invariant:
  assumes "P s"
    and "\<And>s u. P s \<Longrightarrow> P (process_product e s u)"
    and "\<And>s c. P s \<Longrightarrow> P (s\<lparr>clock := Suc (clock s), categories_entered := categories_entered s @ [c]\<rparr>)"
  shows "P (snd (run e cats mp s))"
  using assms(1)
proof (induction cats arbitrary: s)
  case Nil
  then show ?case by simp
next
  case (Cons c cats)
  have P1: "P (snd (scrape_category e mp c s))"
    using Cons.prems assms(2,3) by (rule scrape_category_invariant)
  show ?case
  proof (cases "scrape_category e mp c s")
    case (Pair err s')
    with P1 have "P s'" by simp
    with Pair Cons.IH [of s'] show ?thesis by (cases err) simp_all
  qed
qed

lemma run_upserts:
  assumes "\<forall>r\<in>set (upserts s). title r \<noteq> [] \<and> startswith (image_url r) ''http''"
  shows "\<forall>r\<in>set (upserts (snd (run e cats mp s))). title r \<noteq> [] \<and> startswith (image_url r) ''http''"
proof (rule run_invariant [where P = "\<lambda>s. \<forall>r\<in>set (upserts s). title r \<noteq> [] \<and> startswith (image_url r) ''http''"])
  show "\<forall>r\<in>set (upserts s). title r \<noteq> [] \<and> startswith (image_url r) ''http''" by (rule assms)
next
  fix s :: "'a scraper" and u
  assume inv: "\<forall>r\<in>set (upserts s). title r \<noteq> [] \<and> startswith (image_url r) ''http''"
  from process_product_upserts [of e s u]
  show "\<forall>r\<in>set (upserts (process_product e s u)). title r \<noteq> [] \<and> startswith (image_url r) ''http''"
  proof
    assume "upserts (process_product e s u) = upserts s"
    with inv show ?thesis by simp
  next
    assume "\<exists>r. extract_product_data e (clock s) u = Some r \<and> title r \<noteq> [] \<and>
        upserts (process_product e s u) = upserts s @ [r]"
    then obtain r where r: "extract_product_data e (clock s) u = Some r" "title r \<noteq> []"
      "upserts (process_product e s u) = upserts s @ [r]" by blast
    from extract_product_data_Some [OF r(1)] have "startswith (image_url r) ''http''" by blast
    with inv r show ?thesis by simp
  qed
next
  fix s :: "'a scraper" and c
  assume "\<forall>r\<in>set (upserts s). title r \<noteq> [] \<and> startswith (image_url r) ''http''"
  then show "\<forall>r\<in>set (upserts (s\<lparr>clock := Suc (clock s), categories_entered := categories_entered s @ [c]\<rparr>)).
     title r \<noteq> [] \<and> startswith (image_url r) ''http''" by simp
qed

lemma run_monotone:
  "scraped_urls s \<subseteq> scraped_urls (snd (run e cats mp s)) \<and>
   failed_urls s \<subseteq> failed_urls (snd (run e cats mp s))"
proof (rule run_invariant [where P = "\<lambda>s'. scraped_urls s \<subseteq> scraped_urls s' \<and> failed_urls s \<subseteq> failed_urls s'"])
  show "scraped_urls s \<subseteq> scraped_urls s \<and> failed_urls s \<subseteq> failed_urls s" by simp
next
  fix s' :: "'a scraper" and u
  assume "scraped_urls s \<subseteq> scraped_urls s' \<and> failed_urls s \<subseteq> failed_urls s'"
  with process_product_sets [of e s' u]
  show "scraped_urls s \<subseteq> scraped_urls (process_product e s' u) \<and>
        failed_urls s \<subseteq> failed_urls (process_product e s' u)" by auto
next
  fix s' :: "'a scraper" and c
  assume "scraped_urls s \<subseteq> scraped_urls s' \<and> failed_urls s \<subseteq> failed_urls s'"
  then show "scraped_urls s \<subseteq> scraped_urls (s'\<lparr>clock := Suc (clock s'), categories_entered := categories_entered s' @ [c]\<rparr>) \<and>
        failed_urls s \<subseteq> failed_urls (s'\<lparr>clock := Suc (clock s'), categories_entered := categories_entered s' @ [c]\<rparr>)"
    by simp
qed

lemma run_append:
  "run e (xs @ ys) mp s =
     (case run e xs mp s of (Some err, s') \<Rightarrow> (Some err, s') | (None, s') \<Rightarrow> run e ys mp s')"
  by (induction xs arbitrary: s) (auto split: prod.splits option.splits)

lemma scrape_category_entered:
  "categories_entered (snd (scrape_category e mp c s)) = categories_entered s @ [c]"
proof -
  have "categories_entered (foldl (process_product e) s1 us) = categories_entered s1" for s1 us
    by (induction us arbitrary: s1) (simp_all add: process_product_categories)
  then show ?thesis
    by (auto simp: scrape_category_def Let_def split: sum.splits)
qed

lemma run_entered:
  "run e cats mp s = (None, s') \<Longrightarrow> categories_entered s' = categories_entered s @ cats"
proof (induction cats arbitrary: s)
  case Nil
  then show ?case by simp
next
  case (Cons c cats)
  obtain err s1 where sc: "scrape_category e mp c s = (err, s1)" by (cases "scrape_category e mp c s")
  with Cons.prems have "err = None" and "run e cats mp s1 = (None, s')"
    by (cases err; simp)+
  with Cons.IH [of s1] scrape_category_entered [of e mp c s] sc show ?case by simp
qed

lemma scrape_category_goto_fails:
  "\<not> category_goto e (clock s) c \<Longrightarrow>
     scrape_category e mp c s =
       (Some RendererError,
        s\<lparr>clock := Suc (clock s), categories_entered := categories_entered s @ [c]\<rparr>)"
  by (simp add: scrape_category_def Let_def)

lemma run_abort:
  assumes "run e pre mp s0 = (None, s)" and "\<not> category_goto e (clock s) c"
  shows "run e (pre @ c # rest) mp s0 =
           (Some RendererError,
            s\<lparr>clock := Suc (clock s), categories_entered := categories_entered s0 @ pre @ [c]\<rparr>)"
  using assms run_entered [OF assms(1)]
  by (simp add: run_append scrape_category_goto_fails)

lemma generate_embedding_mismatch:
  "m img = Some v \<Longrightarrow> length v \<noteq> 768 \<Longrightarrow> generate_embedding m img = None"
  by (simp add: generate_embedding_def)

lemma add_embedding_mismatch:
  assumes "\<And>img. \<exists>v. model e t img = Some v \<and> length v \<noteq> 768"
  shows "add_embedding e t r = r"
proof -
  from assms obtain v where "model e t (image_url r) = Some v" "length v \<noteq> 768" by blast
  then have "generate_embedding (model e t) (image_url r) = None"
    by (rule generate_embedding_mismatch)
  then show ?thesis by (simp add: add_embedding_def)
qed

lemma add_embedding_reset:
  "embedding r = None \<Longrightarrow> (add_embedding e t r)\<lparr>embedding := None\<rparr> = r"
  by (auto simp: add_embedding_def split: option.splits)

lemma extract_page_mismatch:
  assumes "\<And>img. \<exists>v. model e t img = Some v \<and> length v \<noteq> 768"
  shows "extract_page e t u pd =
           map_option (\<lambda>r. r\<lparr>embedding := None\<rparr>) (extract_page (e\<lparr>model := m\<rparr>) t u pd)"
proof -
  have "embedding (build_result e u pd img) = None" for img and e :: "'a env"
    by (simp add: build_result_def)
  moreover have "build_result (e\<lparr>model := m\<rparr>) u pd img = build_result e u pd img" for img
    by (simp add: build_result_def)
  moreover have "full_image_url (e\<lparr>model := m\<rparr>) img = full_image_url e img" for img
    by (simp add: full_image_url_def)
  ultimately show ?thesis
    using add_embedding_mismatch [OF assms]
    by (simp add: extract_page_def add_embedding_reset split: option.splits)
qed

lemma extract_product_data_mismatch:
  assumes "\<And>img. \<exists>v. model e t img = Some v \<and> length v \<noteq> 768"
  shows "extract_product_data e t u =
           map_option (\<lambda>r. r\<lparr>embedding := None\<rparr>) (extract_product_data (e\<lparr>model := m\<rparr>) t u)"
  using extract_page_mismatch [OF assms]
  by (simp add: extract_product_data_def split: option.splits)

lemma no_digit_py_float: "\<forall>c\<in>set s. \<not> is_digit c \<Longrightarrow> py_float s = None"
proof -
  assume nd: "\<forall>c\<in>set s. \<not> is_digit c"
  then have "dropWhile is_digit s = s" "takeWhile is_digit s = []"
    by (cases s; simp)+
  with nd show ?thesis
    by (cases s) (auto simp: py_float_def list_all_iff split: list.splits)
qed

lemma no_digit_number_search: "\<forall>c\<in>set s. \<not> is_digit c \<Longrightarrow> number_search s = None"
  by (induction s) auto

lemma no_digit_parse_price: "\<forall>c\<in>set s. \<not> is_digit c \<Longrightarrow> parse_price (Some s) = None"
  by (simp add: parse_price_def no_digit_py_float no_digit_number_search)

lemma replace_first_set: "set (replace_first x s) \<subseteq> set s"
  by (induction s) auto

lemma price_match_at_set: "set (price_match_at s) \<subseteq> set s"
proof -
  have "set (takeWhile digit_or_comma s) \<subseteq> set s" by (auto dest: set_takeWhileD)
  moreover have "set (c # takeWhile is_digit rest) \<subseteq> set s" if "dropWhile digit_or_comma s = c # rest"
    for c rest
  proof -
    have "set (takeWhile is_digit rest) \<subseteq> set rest" by (auto dest: set_takeWhileD)
    then have "set (c # takeWhile is_digit rest) \<subseteq> set (dropWhile digit_or_comma s)"
      using that by auto
    also have "\<dots> \<subseteq> set s" by (auto dest: set_dropWhileD)
    finally show ?thesis .
  qed
  ultimately show ?thesis
    by (auto simp: price_match_at_def split: list.splits)
qed

lemma price_match_set: "price_match s = Some m \<Longrightarrow> set m \<subseteq> set s"
proof (induction s)
  case Nil
  then show ?case by simp
next
  case (Cons c cs)
  then show ?case using price_match_at_set [of "c # cs"]
    by (auto split: if_splits)
qed

lemma js_trim_set: "set (js_trim s) \<subseteq> set s"
proof -
  have "set (dropWhile js_whitespace (rev (dropWhile js_whitespace s))) \<subseteq> set (rev (dropWhile js_whitespace s))"
    by (auto dest: set_dropWhileD)
  also have "\<dots> \<subseteq> set s" using set_dropWhileD [of _ js_whitespace s] by auto
  finally show ?thesis by (simp add: js_trim_def)
qed

lemma no_digit_price_absent:
  assumes "\<forall>c\<in>set text. \<not> is_digit c"
  shows "parse_price (js_price_text (Some text)) = None"
proof (cases "price_match (js_trim text)")
  case None
  then show ?thesis by (simp add: js_price_text_def parse_price_def)
next
  case (Some m)
  have "set (replace_first CHR '','' m) \<subseteq> set text"
    using replace_first_set [of "CHR '',''" m] price_match_set [OF Some] js_trim_set [of "text"]
    by blast
  with assms have "\<forall>c\<in>set (replace_first CHR '','' m). \<not> is_digit c" by blast
  with Some show ?thesis by (simp add: js_price_text_def no_digit_parse_price)
qed

lemma process_product_outcome:
  assumes "u \<notin> scraped_urls s"
  shows "(outcomes (process_product e s u) = outcomes s @ [(u, True)] \<and>
            scraped_urls (process_product e s u) = insert u (scraped_urls s) \<and>
            failed_urls (process_product e s u) = failed_urls s) \<or>
         (outcomes (process_product e s u) = outcomes s @ [(u, False)] \<and>
            scraped_urls (process_product e s u) = scraped_urls s \<and>
            failed_urls (process_product e s u) = insert u (failed_urls s))"
  using assms by (auto simp: process_product_def Let_def split: option.splits)

lemma process_product_both:
  "scraped_urls (process_product e s u) \<inter> failed_urls (process_product e s u) =
     scraped_urls s \<inter> failed_urls s \<union>
     (if u \<notin> scraped_urls s \<and> u \<in> failed_urls s \<and> u \<in> scraped_urls (process_product e s u)
      then {u} else {})"
proof (cases "u \<in> scraped_urls s")
  case True
  then show ?thesis by (simp add: process_product_skip)
next
  case False
  from process_product_outcome [OF False, of e] False show ?thesis by auto
qed

lemma outcomes_inv_step:
  assumes "outcomes_inv s"
  shows "outcomes_inv (process_product e s u)"
proof (cases "u \<in> scraped_urls s")
  case True
  with assms show ?thesis by (simp add: process_product_skip)
next
  case False
  let ?s' = "process_product e s u"
  have "\<exists>b. outcomes ?s' = outcomes s @ [(u, b)] \<and>
      scraped_urls ?s' = (if b then insert u (scraped_urls s) else scraped_urls s) \<and>
      failed_urls ?s' = (if b then failed_urls s else insert u (failed_urls s))"
    using process_product_outcome [OF False, of e]
  proof
    assume "outcomes ?s' = outcomes s @ [(u, True)] \<and>
        scraped_urls ?s' = insert u (scraped_urls s) \<and> failed_urls ?s' = failed_urls s"
    then show ?thesis by (intro exI [of _ True]) simp
  next
    assume "outcomes ?s' = outcomes s @ [(u, False)] \<and>
        scraped_urls ?s' = scraped_urls s \<and> failed_urls ?s' = insert u (failed_urls s)"
    then show ?thesis by (intro exI [of _ False]) simp
  qed
  then obtain b where
    out: "outcomes ?s' = outcomes s @ [(u, b)]"
    and sc: "scraped_urls ?s' = (if b then insert u (scraped_urls s) else scraped_urls s)"
    and fl: "failed_urls ?s' = (if b then failed_urls s else insert u (failed_urls s))"
    by blast
  have "v \<notin> fst ` set ys" if dec: "outcomes ?s' = xs @ (v, True) # ys" for xs ys v
  proof (cases ys rule: rev_cases)
    case Nil
    then show ?thesis by simp
  next
    case (snoc ys' y)
    with dec out have old: "outcomes s = xs @ (v, True) # ys'" and y: "y = (u, b)" by auto
    with assms have "v \<notin> fst ` set ys'" unfolding outcomes_inv_def by blast
    moreover from old assms have "v \<in> scraped_urls s" unfolding outcomes_inv_def by auto
    with False have "v \<noteq> u" by blast
    ultimately show ?thesis using snoc y by auto
  qed
  moreover have "scraped_urls ?s' = {u. (u, True) \<in> set (outcomes ?s')}"
    using assms out sc unfolding outcomes_inv_def by auto
  moreover have "failed_urls ?s' = {u. (u, False) \<in> set (outcomes ?s')}"
    using assms out fl unfolding outcomes_inv_def by auto
  ultimately show ?thesis unfolding outcomes_inv_def by blast
qed

lemma run_outcomes_inv: "outcomes_inv (snd (run e cats mp new_scraper))"
proof (rule run_invariant [where P = outcomes_inv])
  show "outcomes_inv new_scraper" by (simp add: outcomes_inv_def new_scraper_def)
next
  fix s :: "'a scraper" and u
  assume "outcomes_inv s"
  then show "outcomes_inv (process_product e s u)" by (rule outcomes_inv_step)
next
  fix s :: "'a scraper" and c
  assume "outcomes_inv s"
  then show "outcomes_inv (s\<lparr>clock := Suc (clock s), categories_entered := categories_entered s @ [c]\<rparr>)"
    by (simp add: outcomes_inv_def)
qed

lemma extract_product_data_image:
  assumes "extract_product_data e t u = Some r"
  shows "\<exists>d. product_page e t u = Some d \<and> full_image_url e (js_image_url d) = Some (image_url r)"
  using assms
  by (auto simp: extract_product_data_def extract_page_def evaluate_product_def build_result_def
      add_embedding_fields split: option.splits if_splits)

section \<open>The claims\<close>

text \<open>
  Claim C9. The walker always terminates, after at most \<open>max_scrolls\<close> scrolls: whatever the
  page answers it either raises the renderer's exception or returns after at most
  \<open>max_scrolls\<close> scrolls; and on a page whose height strictly increases at every scroll
  (whatever links it shows, new ones included), with no product cap, it returns after
  exactly \<open>max_scrolls\<close> scrolls.
\<close>

theorem walker_terminates_within_max_scrolls:
  "(walk_loop page ms mp walk_init = Inl RendererError \<or>
    (\<exists>st. walk_loop page ms mp walk_init = Inr st \<and> int (scrolls st) \<le> max 0 ms)) \<and>
   (0 < h 0 \<and> (\<forall>k. h k < h (Suc k)) \<longrightarrow>
    (\<exists>st. walk_loop (\<lambda>k. Some (h k, us k)) ms None walk_init = Inr st \<and>
          int (scrolls st) = max 0 ms))"
proof
  show "walk_loop page ms mp walk_init = Inl RendererError \<or>
    (\<exists>st. walk_loop page ms mp walk_init = Inr st \<and> int (scrolls st) \<le> max 0 ms)"
  proof (cases "walk_loop page ms mp walk_init")
    case (Inl err)
    then show ?thesis by (cases err) simp
  next
    case (Inr st)
    then show ?thesis using walk_loop_scrolls_bound by blast
  qed
next
  show "0 < h 0 \<and> (\<forall>k. h k < h (Suc k)) \<longrightarrow>
    (\<exists>st. walk_loop (\<lambda>k. Some (h k, us k)) ms None walk_init = Inr st \<and>
          int (scrolls st) = max 0 ms)"
  proof
    assume grow: "0 < h 0 \<and> (\<forall>k. h k < h (Suc k))"
    have "\<exists>st'. walk_loop (\<lambda>k. Some (h k, us k)) ms None walk_init = Inr st' \<and>
           int (scrolls st') = max (scroll_attempts walk_init) ms"
      by (rule walk_loop_growing) (use grow in \<open>simp_all add: walk_init_def\<close>)
    then show "\<exists>st. walk_loop (\<lambda>k. Some (h k, us k)) ms None walk_init = Inr st \<and>
          int (scrolls st) = max 0 ms"
      by (simp add: walk_init_def)
  qed
qed

theorem walker_terminates_within_max_scrolls_witness:
  "0 < growing_height 0 \<and> (\<forall>k. growing_height k < growing_height (Suc k)) \<and>
   (\<exists>st. walk_loop growing_page 50 None walk_init = Inr st \<and> scrolls st = 50)"
proof -
  have grow: "0 < growing_height 0 \<and> (\<forall>k. growing_height k < growing_height (Suc k))"
    by (simp add: growing_height_def)
  have page: "(\<lambda>k. Some (growing_height k, growing_links k)) = growing_page"
    by (simp add: growing_page_def fun_eq_iff)
  from walker_terminates_within_max_scrolls [of _ 50 _ growing_height growing_links] grow page
  show ?thesis by simp
qed




text \<open>
  Claim C8, amended. On a page that answers every scroll, the walker returns, and it has
  stopped only because the product cap is reached, or the height was unchanged (equal to
  the height of the scroll before, not merely failing to increase) at its last three
  scrolls, or \<open>max_scrolls\<close> scrolls are done; it never scrolls beyond \<open>max_scrolls\<close>;
  three scrolls in a row with unchanged height end the walk at the third of them at the
  latest, whatever \<open>max_scrolls\<close> is; and an iteration after which the loop goes on has
  left the cap unreached and fewer than three unchanged heights counted.
\<close>

theorem walker_stop_conditions:
  "(\<exists>st. walk_loop (\<lambda>k. Some (h k, us k)) ms mp walk_init = Inr st \<and>
      (limit_reached mp (product_urls st) \<or>
       (3 \<le> scrolls st \<and> height_unchanged h (scrolls st - 3) \<and>
        height_unchanged h (scrolls st - 2) \<and> height_unchanged h (scrolls st - 1)) \<or>
       ms \<le> int (scrolls st)) \<and>
      int (scrolls st) \<le> max 0 ms \<and>
      (\<forall>k. height_unchanged h k \<and> height_unchanged h (Suc k) \<and> height_unchanged h (Suc (Suc k))
         \<longrightarrow> scrolls st \<le> k + 3)) \<and>
   (walk_body mp obs s = Next s' \<longrightarrow>
      \<not> limit_reached mp (product_urls s') \<and> no_change_count s' < 3)"
proof -
  obtain st where st: "walk_loop (\<lambda>k. Some (h k, us k)) ms mp walk_init = Inr st"
    using walk_loop_total [of "\<lambda>k. (h k, us k)" ms mp walk_init] by blast
  from walk_loop_heights [OF st] walk_loop_scrolls_bound [OF st] st
  have "\<exists>st. walk_loop (\<lambda>k. Some (h k, us k)) ms mp walk_init = Inr st \<and>
      (limit_reached mp (product_urls st) \<or>
       (3 \<le> scrolls st \<and> height_unchanged h (scrolls st - 3) \<and>
        height_unchanged h (scrolls st - 2) \<and> height_unchanged h (scrolls st - 1)) \<or>
       ms \<le> int (scrolls st)) \<and>
      int (scrolls st) \<le> max 0 ms \<and>
      (\<forall>k. height_unchanged h k \<and> height_unchanged h (Suc k) \<and> height_unchanged h (Suc (Suc k))
         \<longrightarrow> scrolls st \<le> k + 3)"
    by blast
  then show ?thesis using walk_body_not_reached [of mp obs s s'] by blast
qed

theorem walker_stop_conditions_witness:
  "height_unchanged static_height 0 \<and> height_unchanged static_height 1 \<and>
   height_unchanged static_height 2 \<and>
   (\<exists>st. walk_loop static_page 50 None walk_init = Inr st \<and> scrolls st \<le> 3) \<and>
   walk_body None (0, []) walk_init = Next (walk_init\<lparr>scrolls := 1, no_change_count := 1, scroll_attempts := 1\<rparr>) \<and>
   no_change_count (walk_init\<lparr>scrolls := 1, no_change_count := 1, scroll_attempts := 1\<rparr>) < 3"
proof -
  have u: "height_unchanged static_height 0 \<and> height_unchanged static_height (Suc 0) \<and>
      height_unchanged static_height (Suc (Suc 0))"
    by (simp add: height_unchanged_def static_height_def)
  have body: "walk_body None (0, []) walk_init =
      Next (walk_init\<lparr>scrolls := 1, no_change_count := 1, scroll_attempts := 1\<rparr>)"
    by (simp add: walk_body_def walk_init_def limit_reached_def current_urls_def)
  have page: "(\<lambda>k. Some (static_height k, static_links k)) = static_page"
    by (simp add: static_page_def fun_eq_iff)
  from walker_stop_conditions [of static_height static_links 50 None "(0, [])" walk_init
      "walk_init\<lparr>scrolls := 1, no_change_count := 1, scroll_attempts := 1\<rparr>"] body
  have "\<exists>st. walk_loop static_page 50 None walk_init = Inr st \<and>
          (\<forall>k. height_unchanged static_height k \<and> height_unchanged static_height (Suc k) \<and>
               height_unchanged static_height (Suc (Suc k)) \<longrightarrow> scrolls st \<le> k + 3)"
    and "no_change_count (walk_init\<lparr>scrolls := 1, no_change_count := 1, scroll_attempts := 1\<rparr>) < 3"
    unfolding page by blast+
  with u body show ?thesis
    by (metis One_nat_def Suc_1 add_0)
qed

text \<open>
  On \<open>shrinking_page\<close> the height fails to increase at every scroll after the first, and
  the walker scrolls 50 times.
\<close>

theorem walker_shrinking_counterexample:
  "shrinking_height 1 \<le> shrinking_height 0 \<and> shrinking_height 2 \<le> shrinking_height 1 \<and>
   shrinking_height 3 \<le> shrinking_height 2 \<and>
   map_sum id scrolls (walk_loop shrinking_page 50 None walk_init) = Inr 50"
  by code_simp

text \<open>
  Claim C4. When the model answers vectors whose length is not 768,
  \<open>generate_embedding\<close> returns nothing, the extractor returns the record it would return
  with any other model, with the embedding absent, so a mismatch never makes the
  extractor return nothing, and that record is passed to the sink.
\<close>

theorem dimension_mismatch_keeps_record:
  assumes "\<And>img. \<exists>v. model e t img = Some v \<and> length v \<noteq> 768"
  shows "generate_embedding (model e t) i = None \<and>
         extract_product_data e t u =
           map_option (\<lambda>r. r\<lparr>embedding := None\<rparr>) (extract_product_data (e\<lparr>model := m\<rparr>) t u) \<and>
         (clock s = t \<and> u \<notin> scraped_urls s \<and>
          extract_product_data (e\<lparr>model := m\<rparr>) t u = Some r \<and> title r \<noteq> [] \<longrightarrow>
            upserts (process_product e s u) = upserts s @ [r\<lparr>embedding := None\<rparr>])"
proof (intro conjI impI)
  from assms obtain v where "model e t i = Some v" "length v \<noteq> 768" by blast
  then show "generate_embedding (model e t) i = None" by (rule generate_embedding_mismatch)
next
  show eq: "extract_product_data e t u =
      map_option (\<lambda>r. r\<lparr>embedding := None\<rparr>) (extract_product_data (e\<lparr>model := m\<rparr>) t u)"
    using assms by (rule extract_product_data_mismatch)
  assume a: "clock s = t \<and> u \<notin> scraped_urls s \<and>
          extract_product_data (e\<lparr>model := m\<rparr>) t u = Some r \<and> title r \<noteq> []"
  with eq have "extract_product_data e (clock s) u = Some (r\<lparr>embedding := None\<rparr>)" by simp
  moreover have "title (r\<lparr>embedding := None\<rparr>) \<noteq> []" using a by simp
  ultimately show "upserts (process_product e s u) = upserts s @ [r\<lparr>embedding := None\<rparr>]"
    using a process_product_upsert by blast
qed

theorem dimension_mismatch_keeps_record_witness:
  "(\<forall>img. model short_model_env 0 img = Some (replicate 512 0)) \<and>
   length (replicate 512 (0::int)) \<noteq> 768 \<and>
   generate_embedding (model short_model_env 0) tee_url = None \<and>
   extract_product_data good_env 0 tee_url \<noteq> None \<and>
   extract_product_data short_model_env 0 tee_url =
     Some ((the (extract_product_data good_env 0 tee_url))\<lparr>embedding := None\<rparr>) \<and>
   upserts (process_product short_model_env new_scraper tee_url) =
     [(the (extract_product_data good_env 0 tee_url))\<lparr>embedding := None\<rparr>]"
proof -
  have short: "model short_model_env 0 img = Some (replicate 512 0)" for img
    by (simp add: short_model_env_def)
  then have hyp: "\<exists>v. model short_model_env 0 img = Some v \<and> length v \<noteq> 768" for img
    by simp
  have env: "short_model_env\<lparr>model := model good_env\<rparr> = good_env"
    by (simp add: short_model_env_def)
  have ok: "extract_product_data good_env 0 tee_url \<noteq> None" by code_simp
  then have some: "extract_product_data good_env 0 tee_url
      = Some (the (extract_product_data good_env 0 tee_url))" by simp
  have ttl: "title (the (extract_product_data good_env 0 tee_url)) \<noteq> []" by code_simp
  have fresh: "tee_url \<notin> scraped_urls (new_scraper :: int scraper)"
    "clock (new_scraper :: int scraper) = 0" "upserts (new_scraper :: int scraper) = []"
    by (simp_all add: new_scraper_def)
  from dimension_mismatch_keeps_record [of short_model_env 0 tee_url tee_url "model good_env"
      new_scraper "the (extract_product_data good_env 0 tee_url)", OF hyp]
    env some ttl fresh short ok
  show ?thesis by auto
qed

text \<open>
  Claim C5, at the price text \<open>1,234,567.00\<close>. The script removes the first comma only and
  hands \<open>1234,567.00\<close> to Python, where \<open>float\<close> fails and the fallback finds \<open>1234\<close>: the
  price is 1234, not 1234567.
\<close>

theorem price_second_separator_kept:
  "data_price_text (evaluate_product million_dom) = Some ''1234,567.00'' \<and>
   py_float ''1234,567.00'' = None \<and>
   number_search ''1234,567.00'' = Some ''1234'' \<and>
   map_option price (extract_product_data million_env 0 tee_url) = Some (Some (Finite 1234))"
  by code_simp

text \<open>
  The two examples of the specification hold: the price of \<open>$49.99\<close> is the double
  nearest to 49.99, and a text without digits gives no price (\<open>no_digit_price_absent\<close>).
\<close>

lemma price_example:
  "parse_price (js_price_text (Some ''$49.99'')) = Some (round_double (4999 / 100)) \<and>
   round_double (4999 / 100) = Finite (7035467042882847 / 2 ^ 47) \<and>
   js_currency ''$49.99'' = ''USD''"
  by code_simp

text \<open>
  Claim C10. A round of the product loop leaves both sets as they are or adds its URL to
  one of them; neither a round nor a whole run removes a URL from either set, so a URL
  in the failure set stays there, also when a later attempt on it succeeds.
\<close>

theorem url_sets_grow_monotonically:
  "((scraped_urls (process_product e s u) = scraped_urls s \<and>
       failed_urls (process_product e s u) = failed_urls s) \<or>
    (scraped_urls (process_product e s u) = insert u (scraped_urls s) \<and>
       failed_urls (process_product e s u) = failed_urls s) \<or>
    (scraped_urls (process_product e s u) = scraped_urls s \<and>
       failed_urls (process_product e s u) = insert u (failed_urls s))) \<and>
   scraped_urls s \<subseteq> scraped_urls (snd (run e cats mp s)) \<and>
   failed_urls s \<subseteq> failed_urls (snd (run e cats mp s))"
  using process_product_sets [of e s u] run_monotone [of s e cats mp] by blast

theorem url_sets_grow_monotonically_witness:
  "tee_url \<in> failed_urls (snd (run flaky_env [mens_url] None new_scraper)) \<and>
   clock (snd (run flaky_env [mens_url] None new_scraper)) = 3 \<and>
   tee_url \<in> scraped_urls (process_product flaky_env (snd (run flaky_env [mens_url] None new_scraper)) tee_url) \<and>
   tee_url \<in> failed_urls (process_product flaky_env (snd (run flaky_env [mens_url] None new_scraper)) tee_url) \<and>
   tee_url \<in> failed_urls (snd (run flaky_env [womens_url] None (snd (run flaky_env [mens_url] None new_scraper))))"
proof -
  have failed: "tee_url \<in> failed_urls (snd (run flaky_env [mens_url] None new_scraper))"
    by code_simp
  have clk: "clock (snd (run flaky_env [mens_url] None new_scraper)) = 3" by code_simp
  have ok: "tee_url \<in> scraped_urls (process_product flaky_env (snd (run flaky_env [mens_url] None new_scraper)) tee_url)"
    by code_simp
  have "tee_url \<notin> scraped_urls (snd (run flaky_env [mens_url] None new_scraper))"
    by code_simp
  with url_sets_grow_monotonically [of flaky_env "snd (run flaky_env [mens_url] None new_scraper)"
      tee_url "[womens_url]" None] failed ok clk
  show ?thesis by auto
qed

text \<open>
  Claim C6, amended. The list the walker returns has no duplicates, and each of its
  elements contains \<open>/p/\<close> and is, unchanged, the \<open>href\<close> property of an anchor the
  page showed at some scroll. The walker does not test that it is absolute: the
  elements are absolute URLs when every \<open>href\<close> the page shows is one.
\<close>

theorem walker_urls_distinct_marked:
  assumes "scroll_and_load_products page order_key ms mp = Inr urls"
  shows "distinct urls \<and>
         (\<forall>u\<in>set urls. str_includes u ''/p/'' \<and>
            (\<exists>k hk hrefs. page k = Some (hk, hrefs) \<and> u \<in> set hrefs)) \<and>
         ((\<forall>k hk hrefs. page k = Some (hk, hrefs) \<longrightarrow> list_all is_absolute_url hrefs)
            \<longrightarrow> list_all is_absolute_url urls)"
proof -
  from assms obtain st where st: "walk_loop page ms mp walk_init = Inr st"
    and urls: "urls = list_of_set order_key (product_urls st)"
    by (auto simp: scroll_and_load_products_def split: sum.splits)
  have shown: "str_includes u ''/p/'' \<and> (\<exists>k hk hrefs. page k = Some (hk, hrefs) \<and> u \<in> set hrefs)"
    if "u \<in> set urls" for u
  proof -
    from that urls have "u \<in> set (product_urls st)" by (simp add: list_of_set_props)
    with walk_loop_urls [OF st] show ?thesis by blast
  qed
  have "list_all is_absolute_url urls"
    if "\<forall>k hk hrefs. page k = Some (hk, hrefs) \<longrightarrow> list_all is_absolute_url hrefs"
    using that shown by (fastforce simp: list_all_iff)
  with shown urls show ?thesis by (simp add: list_of_set_props)
qed

theorem walker_urls_distinct_marked_witness:
  "scroll_and_load_products static_page length 50 None = Inr [tee_url, cap_url] \<and>
   (\<forall>k. list_all is_absolute_url (static_links k)) \<and>
   distinct [tee_url, cap_url] \<and>
   list_all is_absolute_url [tee_url, cap_url] \<and>
   list_all (\<lambda>u. str_includes u ''/p/'') [tee_url, cap_url]"
proof -
  have run: "scroll_and_load_products static_page length 50 None = Inr [tee_url, cap_url]"
    by code_simp
  have links: "list_all is_absolute_url (static_links k)" for k
    by (simp add: static_links_def tee_url_def cap_url_def is_absolute_url_def scheme_char_def
        is_digit_def)
  then have abs: "\<forall>k hk hrefs. static_page k = Some (hk, hrefs) \<longrightarrow> list_all is_absolute_url hrefs"
    by (auto simp: static_page_def)
  from walker_urls_distinct_marked [OF run] abs run links show ?thesis
    by (simp add: list_all_iff)
qed

text \<open>
  From \<open>unresolved_page\<close> the walker returns \<open>//[bad/p/x\<close>, which has no scheme.
\<close>

theorem walker_relative_url_counterexample:
  "scroll_and_load_products unresolved_page length 50 None = Inr [''//[bad/p/x''] \<and>
   \<not> is_absolute_url ''//[bad/p/x''"
  by code_simp

text \<open>
  Claim C1, at two product pages. On \<open>lazy_dom\<close>, whose image has no \<open>src\<close> and the
  relative \<open>data-src\<close> \<open>httpdocs/img/0001.jpg\<close>, the test \<open>startswith('http')\<close> lets the
  URL through unjoined: the extractor returns a record whose image URL is not absolute,
  and the record is passed to the sink. On \<open>blank_title_dom\<close>, whose title is the one
  character U+001F, the title is tested before \<open>strip()\<close> removes that character: the
  extractor returns a record with an empty title.
\<close>

theorem extractor_returns_unvalidated_record:
  "map_option image_url (extract_product_data lazy_env 0 tee_url) = Some ''httpdocs/img/0001.jpg'' \<and>
   \<not> absolute_http_url ''httpdocs/img/0001.jpg'' \<and>
   map image_url (upserts (snd (run lazy_env [mens_url] None new_scraper)))
     = [''httpdocs/img/0001.jpg'', ''httpdocs/img/0001.jpg''] \<and>
   map_option title (extract_product_data blank_title_env 0 tee_url) = Some []"
  by code_simp

text \<open>
  What the guards of lines 331-359 and 430 do establish: a record the extractor returns
  has the image URL of its page, joined to the base URL unless it begins with \<open>http\<close>, and
  that URL begins with \<open>http\<close>; its title is the stripped title of the page, which was
  not empty before stripping; and a record passed to the sink has a title that is not
  empty.
\<close>

lemma extractor_guards:
  "(extract_product_data e t u = Some r \<longrightarrow>
      startswith (image_url r) ''http'' \<and>
      (\<exists>d raw. product_page e t u = Some d \<and>
         full_image_url e (js_image_url d) = Some (image_url r) \<and>
         first_title (title_els d) = Some raw \<and> raw \<noteq> [] \<and> title r = strip raw)) \<and>
   (\<forall>p\<in>set (upserts (snd (run e cats mp new_scraper))).
      title p \<noteq> [] \<and> startswith (image_url p) ''http'')"
proof (intro conjI impI)
  assume ex: "extract_product_data e t u = Some r"
  then show "startswith (image_url r) ''http''" using extract_product_data_Some by blast
  from extract_product_data_Some [OF ex] extract_product_data_image [OF ex]
  show "\<exists>d raw. product_page e t u = Some d \<and>
         full_image_url e (js_image_url d) = Some (image_url r) \<and>
         first_title (title_els d) = Some raw \<and> raw \<noteq> [] \<and> title r = strip raw"
    by auto
next
  show "\<forall>p\<in>set (upserts (snd (run e cats mp new_scraper))).
      title p \<noteq> [] \<and> startswith (image_url p) ''http''"
    by (rule run_upserts) (simp add: new_scraper_def)
qed

text \<open>
  Claim C2, amended. After a complete run of a new scraper over any list of category
  URLs, a product URL is in both the success set and the failure set exactly when one
  attempt on it failed and one attempt on it was saved; no attempt on a URL follows a
  saved one, so the failure came first. Whenever no URL that failed is saved later, the
  two sets are disjoint. A round of the product loop adds its URL to the common part
  exactly when that URL is in the failure set and is now saved, and changes nothing
  else of it.
\<close>

theorem url_in_both_sets_iff_saved_after_failure:
  "scraped_urls (snd (run e cats mp new_scraper)) \<inter> failed_urls (snd (run e cats mp new_scraper))
     = {v. (v, False) \<in> set (outcomes (snd (run e cats mp new_scraper))) \<and>
           (v, True) \<in> set (outcomes (snd (run e cats mp new_scraper)))} \<and>
   (outcomes (snd (run e cats mp new_scraper)) = xs @ (w, True) # ys \<longrightarrow> w \<notin> fst ` set ys) \<and>
   scraped_urls (process_product e s u) \<inter> failed_urls (process_product e s u) =
     scraped_urls s \<inter> failed_urls s \<union>
     (if u \<notin> scraped_urls s \<and> u \<in> failed_urls s \<and> u \<in> scraped_urls (process_product e s u)
      then {u} else {})"
proof -
  have inv: "outcomes_inv (snd (run e cats mp new_scraper))" by (rule run_outcomes_inv)
  then have "scraped_urls (snd (run e cats mp new_scraper)) \<inter>
      failed_urls (snd (run e cats mp new_scraper))
     = {v. (v, False) \<in> set (outcomes (snd (run e cats mp new_scraper))) \<and>
           (v, True) \<in> set (outcomes (snd (run e cats mp new_scraper)))}"
    unfolding outcomes_inv_def by blast
  moreover from inv have "outcomes (snd (run e cats mp new_scraper)) = xs @ (w, True) # ys
      \<longrightarrow> w \<notin> fst ` set ys"
    unfolding outcomes_inv_def by blast
  ultimately show ?thesis using process_product_both [of e s u] by blast
qed

theorem url_in_both_sets_iff_saved_after_failure_witness:
  "outcomes (snd (run dead_env [mens_url, womens_url] None new_scraper))
     = [(tee_url, False)] @ (cap_url, True) # [(tee_url, False)] \<and>
   cap_url \<notin> fst ` set [(tee_url, False)] \<and>
   scraped_urls (snd (run dead_env [mens_url, womens_url] None new_scraper)) = {cap_url} \<and>
   failed_urls (snd (run dead_env [mens_url, womens_url] None new_scraper)) = {tee_url} \<and>
   scraped_urls (snd (run dead_env [mens_url, womens_url] None new_scraper)) \<inter>
   failed_urls (snd (run dead_env [mens_url, womens_url] None new_scraper)) = {}"
proof -
  have out: "outcomes (snd (run dead_env [mens_url, womens_url] None new_scraper))
     = [(tee_url, False)] @ (cap_url, True) # [(tee_url, False)]"
    by code_simp
  have sets: "scraped_urls (snd (run dead_env [mens_url, womens_url] None new_scraper)) = {cap_url}"
    "failed_urls (snd (run dead_env [mens_url, womens_url] None new_scraper)) = {tee_url}"
    by code_simp+
  have ne: "tee_url \<noteq> cap_url" by code_simp
  from url_in_both_sets_iff_saved_after_failure [of dead_env "[mens_url, womens_url]" None
      "[(tee_url, False)]" cap_url "[(tee_url, False)]"] out
  have "cap_url \<notin> fst ` set [(tee_url, False)]"
    and "scraped_urls (snd (run dead_env [mens_url, womens_url] None new_scraper)) \<inter>
      failed_urls (snd (run dead_env [mens_url, womens_url] None new_scraper))
      = {v. (v, False) \<in> set ([(tee_url, False)] @ (cap_url, True) # [(tee_url, False)]) \<and>
            (v, True) \<in> set ([(tee_url, False)] @ (cap_url, True) # [(tee_url, False)])}"
    by simp_all
  moreover have "{v. (v, False) \<in> set ([(tee_url, False)] @ (cap_url, True) # [(tee_url, False)]) \<and>
            (v, True) \<in> set ([(tee_url, False)] @ (cap_url, True) # [(tee_url, False)])} = {}"
    using ne by auto
  ultimately show ?thesis using out sets by simp
qed

text \<open>
  Two categories show the same product; its page fails to load the first time and
  loads the second time: the URL ends in both sets.
\<close>

theorem url_in_both_sets_counterexample:
  "outcomes (snd (run flaky_env [mens_url, womens_url] None new_scraper))
     = [(tee_url, False), (cap_url, True), (tee_url, True)] \<and>
   tee_url \<in> scraped_urls (snd (run flaky_env [mens_url, womens_url] None new_scraper)) \<and>
   tee_url \<in> failed_urls (snd (run flaky_env [mens_url, womens_url] None new_scraper))"
  by code_simp

text \<open>
  Claim C3, at a run over two categories where navigation to the first fails. The
  exception of \<open>page.goto\<close> passes the \<open>finally\<close> of \<open>scrape_category\<close> and that of \<open>run\<close>:
  \<open>run\<close> ends with it, and the second category is never entered.
\<close>

theorem next_category_not_attempted:
  "fst (run broken_env [mens_url, womens_url] None new_scraper) = Some RendererError \<and>
   categories_entered (snd (run broken_env [mens_url, womens_url] None new_scraper)) = [mens_url]"
  by code_simp

end
